theory Spec2Isabelle
  imports Main "HOL-Library.AList"
begin

section \<open>Decorator metadata and registration (src/decorators.ts)\<close>

text \<open>
  The module keeps its metadata in JavaScript objects that are shared by reference:
  the \<^verbatim>\<open>__sequelize_meta__\<close> store hangs on a prototype object and is found through the
  prototype chain, the association decorators write into the options object of their
  caller, and \<^verbatim>\<open>Index\<close> pushes the same index object several times into one array.
  The embedding therefore passes an explicit heap: object identities are numbers, and
  every function of the source takes the heap and returns the heap it leaves behind,
  also when it throws.
\<close>

subsection \<open>Values, objects and the heap\<close>

type_synonym ref = nat

text \<open>
  The values that occur in option objects. \<open>Nullish\<close> stands for both \<^verbatim>\<open>null\<close> and
  \<^verbatim>\<open>undefined\<close> (the source only tests \<^verbatim>\<open>== null\<close>); \<open>JArr\<close> is a reference to an
  array of index objects; \<open>JStrs\<close> is the \<^verbatim>\<open>fields\<close> array of an index, which belongs to
  that index alone; \<open>JOpaque\<close> is any value the module never inspects.
\<close>

datatype jsval =
    Nullish
  | JBool bool
  | JStr string
  | JStrs "string list"
  | JArr ref
  | JOpaque string

text \<open>
  A plain object, as the declarations of the source have them for options, attributes and
  indexes: an own property is absent (\<open>None\<close>) or holds a value, and the prototype is
  \<^verbatim>\<open>Object.prototype\<close>.
\<close>

type_synonym jsobj = "string \<rightharpoonup> jsval"

definition is_null :: "jsval option \<Rightarrow> bool" where
  "is_null v = (v = None \<or> v = Some Nullish)"

text \<open>\<^verbatim>\<open>Object.assign({}, a, b)\<close>: the properties of \<open>a\<close>, overwritten by those of \<open>b\<close>.\<close>

definition Object_assign :: "jsobj \<Rightarrow> jsobj \<Rightarrow> jsobj" where
  "Object_assign a b = a ++ b"

text \<open>\<^verbatim>\<open>clean(obj)\<close> deletes every property whose value is null or undefined.\<close>

definition clean :: "jsobj \<Rightarrow> jsobj" where
  "clean obj = (\<lambda>key. if obj key = Some Nullish then None else obj key)"

datatype error =
    Invalid_entity      \<comment> \<open>'Invalid Entity. Entities should be of type function/class.'\<close>
  | Through_required    \<comment> \<open>'through property is required for belongs to many association'\<close>
  | TypeError           \<comment> \<open>raised by the JavaScript runtime\<close>
  | Engine_error string \<comment> \<open>raised by the mapping engine\<close>

datatype 'a outcome = Return 'a | Throw error

text \<open>\<^verbatim>\<open>AssociationMethods\<close>\<close>

datatype association_method = HAS_ONE | BELONGS_TO | HAS_MANY | BELONGS_TO_MANY

fun method_name :: "association_method \<Rightarrow> string" where
  "method_name HAS_ONE = ''hasOne''"
| "method_name BELONGS_TO = ''belongsTo''"
| "method_name HAS_MANY = ''hasMany''"
| "method_name BELONGS_TO_MANY = ''belongsToMany''"

text \<open>
  \<^verbatim>\<open>IEntityAssociation\<close>. \<open>target\<close> is the name of the class that the stored thunk
  returns (\<^verbatim>\<open>target().name\<close>, all that is ever read of it); \<open>association\<close> is the
  reference to the options object.
\<close>

record association =
  target :: string
  assoc_method :: association_method
  association :: ref

text \<open>
  \<^verbatim>\<open>IEntity\<close>. \<open>entity_fields\<close> and \<open>associations\<close> hold the own properties of the objects
  \<^verbatim>\<open>fields\<close> and \<^verbatim>\<open>associations\<close>; \<open>associations\<close> is an association list in property creation
  order, since registration enumerates its keys, and assigning to an existing key keeps its
  place (\<open>AList.update\<close>). Both objects are created as \<^verbatim>\<open>{}\<close>, with the prototype
  \<^verbatim>\<open>Object.prototype\<close>; \<open>fields_proto\<close> and \<open>associations_proto\<close> are \<open>None\<close> as long as that is
  their prototype, and hold the object that an assignment to the key \<^verbatim>\<open>__proto__\<close> has put in
  its place.
\<close>

record entity =
  name :: string
  entity_fields :: "string \<rightharpoonup> jsobj"
  associations :: "(string \<times> association) list"
  options :: jsobj
  fields_proto :: "jsobj option"
  associations_proto :: "association option"

text \<open>
  The heap. \<open>stores h x\<close> is the \<^verbatim>\<open>entities\<close> array of the own \<^verbatim>\<open>__sequelize_meta__\<close>
  property of object \<open>x\<close>, if it has one; \<open>objs\<close> holds the association option objects
  and the index objects, \<open>arrs\<close> the \<^verbatim>\<open>indexes\<close> arrays; \<open>next_ref\<close> is the next unused
  identity.
\<close>

record heap =
  stores :: "ref \<rightharpoonup> entity list"
  objs :: "ref \<Rightarrow> jsobj"
  arrs :: "ref \<Rightarrow> ref list"
  next_ref :: ref

definition empty_heap :: heap where
  "empty_heap = \<lparr>stores = Map.empty, objs = (\<lambda>_. Map.empty), arrs = (\<lambda>_. []), next_ref = 0\<rparr>"

text \<open>
  What the module sees of an object it is handed: the object itself, the objects on its
  prototype chain (nearest first), and the name of its \<^verbatim>\<open>constructor\<close> property
  (\<open>None\<close> when \<^verbatim>\<open>target.constructor\<close> is null or undefined).
\<close>

record proto_object =
  self :: ref
  ancestors :: "ref list"
  ctor :: "string option"

text \<open>A function object (a class): its \<^verbatim>\<open>name\<close> and its \<^verbatim>\<open>prototype\<close>.\<close>

record func =
  fname :: string
  prototype :: proto_object

text \<open>For a class, \<^verbatim>\<open>C.prototype.constructor\<close> is \<^verbatim>\<open>C\<close> itself.\<close>

definition is_class :: "func \<Rightarrow> bool" where
  "is_class c = (ctor (prototype c) = Some (fname c))"

text \<open>\<^verbatim>\<open>Object.create(proto)\<close>: a new object without own properties whose prototype is \<open>proto\<close>.\<close>

definition Object_create :: "proto_object \<Rightarrow> heap \<Rightarrow> proto_object \<times> heap" where
  "Object_create proto h =
     (\<lparr>self = next_ref h, ancestors = self proto # ancestors proto, ctor = ctor proto\<rparr>,
      h\<lparr>stores := (stores h)(next_ref h := None), next_ref := Suc (next_ref h)\<rparr>)"

subsection \<open>getMeta\<close>

text \<open>A reference to a metadata record: the object that owns the store, and the position.\<close>

type_synonym mref = "ref \<times> nat"

text \<open>Reading \<^verbatim>\<open>target.__sequelize_meta__\<close> walks the prototype chain.\<close>

definition store_owner :: "heap \<Rightarrow> proto_object \<Rightarrow> ref option" where
  "store_owner h t = List.find (\<lambda>x. stores h x \<noteq> None) (self t # ancestors t)"

definition the_store :: "heap \<Rightarrow> ref \<Rightarrow> entity list" where
  "the_store h x = (case stores h x of None \<Rightarrow> [] | Some es \<Rightarrow> es)"

text \<open>The position of the first element that satisfies \<open>P\<close> (the loop with \<^verbatim>\<open>break\<close>).\<close>

fun first_index :: "('a \<Rightarrow> bool) \<Rightarrow> 'a list \<Rightarrow> nat option" where
  "first_index P [] = None"
| "first_index P (x # xs) =
     (if P x then Some 0 else map_option Suc (first_index P xs))"

definition new_entity :: "string \<Rightarrow> entity" where
  "new_entity cname =
     \<lparr>name = cname, entity_fields = Map.empty, associations = [], options = Map.empty,
      fields_proto = None, associations_proto = None\<rparr>"

definition getMeta :: "proto_object \<Rightarrow> heap \<Rightarrow> mref outcome \<times> heap" where
  "getMeta t h =
     (case ctor t of
        None \<Rightarrow> (Throw Invalid_entity, h)
      | Some cname \<Rightarrow>
          let h1 = (if store_owner h t = None
                    then h\<lparr>stores := (stores h)(self t \<mapsto> [])\<rparr> else h);
              x = (case store_owner h1 t of None \<Rightarrow> self t | Some y \<Rightarrow> y);
              es = the_store h1 x
          in (case first_index (\<lambda>e. name e = cname) es of
                Some i \<Rightarrow> (Return (x, i), h1)
              | None \<Rightarrow>
                  (Return (x, length es),
                   h1\<lparr>stores := (stores h1)(x \<mapsto> es @ [new_entity cname])\<rparr>)))"

text \<open>Reading and writing through a reference to a metadata record.\<close>

definition entity_at :: "heap \<Rightarrow> mref \<Rightarrow> entity" where
  "entity_at h m = the_store h (fst m) ! snd m"

definition update_entity :: "mref \<Rightarrow> (entity \<Rightarrow> entity) \<Rightarrow> heap \<Rightarrow> heap" where
  "update_entity m f h =
     h\<lparr>stores := (stores h)(fst m \<mapsto> (the_store h (fst m))[snd m := f (entity_at h m)])\<rparr>"

subsection \<open>The decorators\<close>

text \<open>
  Each function below is a decorator expression evaluated and applied once, as
  \<^verbatim>\<open>@Decorator(args)\<close> on a class or a member does: first the arguments of the factory,
  then those of the decorator it returns (\<open>target\<close>, and \<open>key\<close> for a member).
\<close>

text \<open>
  The first argument of \<^verbatim>\<open>Entity\<close> as the source tests it: absent (null or undefined),
  a string, an object, or a value of any other type.
\<close>

datatype name_arg = Absent | Str string | Obj jsobj | Other

definition default_timestamp :: "string \<Rightarrow> jsobj \<Rightarrow> jsobj" where
  "default_timestamp k opts = (if is_null (opts k) then opts(k \<mapsto> JBool False) else opts)"

definition Entity :: "name_arg \<Rightarrow> jsobj option \<Rightarrow> func \<Rightarrow> heap \<Rightarrow> unit outcome \<times> heap" where
  "Entity nm opts tgt h =
     (case getMeta (prototype tgt) h of
        (Throw e, h1) \<Rightarrow> (Throw e, h1)
      | (Return m, h1) \<Rightarrow>
          let meta = entity_at h1 m;
              new_name = (case nm of Str s \<Rightarrow> s | _ \<Rightarrow> fname tgt);
              opts1 = (case nm of
                         Obj ob \<Rightarrow> (if opts = None then Some (Object_assign ob (options meta)) else opts)
                       | _ \<Rightarrow> opts);
              merged = Object_assign (case opts1 of None \<Rightarrow> Map.empty | Some ob \<Rightarrow> ob) (options meta);
              new_options = default_timestamp ''updatedAt'' (default_timestamp ''createdAt'' merged)
          in (Return (), update_entity m (\<lambda>e. e\<lparr>name := new_name, options := new_options\<rparr>) h1))"

text \<open>
  \<^verbatim>\<open>meta.fields[key] = attribute\<close>. The assignment makes or overwrites an own property, but
  for one key: \<^verbatim>\<open>__proto__\<close> is an accessor of \<^verbatim>\<open>Object.prototype\<close>, and unless \<^verbatim>\<open>fields\<close> or the
  object that is its prototype by then has an own property of that name, the assignment
  runs the setter, which makes \<open>attribute\<close> the prototype of \<^verbatim>\<open>fields\<close> and adds no property.
\<close>

definition set_field :: "string \<Rightarrow> jsobj \<Rightarrow> entity \<Rightarrow> entity" where
  "set_field key attribute e =
     (if key = ''__proto__'' \<and> entity_fields e key = None
         \<and> (case fields_proto e of None \<Rightarrow> True | Some p \<Rightarrow> p key = None)
      then e\<lparr>fields_proto := Some attribute\<rparr>
      else e\<lparr>entity_fields := (entity_fields e)(key \<mapsto> attribute)\<rparr>)"

definition Column :: "jsobj \<Rightarrow> proto_object \<Rightarrow> string \<Rightarrow> heap \<Rightarrow> unit outcome \<times> heap" where
  "Column attribute t key h =
     (case getMeta t h of
        (Throw e, h1) \<Rightarrow> (Throw e, h1)
      | (Return m, h1) \<Rightarrow> (Return (), update_entity m (set_field key attribute) h1))"

definition CreatedDateColumn :: "proto_object \<Rightarrow> string \<Rightarrow> heap \<Rightarrow> unit outcome \<times> heap" where
  "CreatedDateColumn t key h =
     (case getMeta t h of
        (Throw e, h1) \<Rightarrow> (Throw e, h1)
      | (Return m, h1) \<Rightarrow>
          (Return (),
           update_entity m (\<lambda>e. e\<lparr>options := (options e)(''createdAt'' \<mapsto> JStr key)\<rparr>) h1))"

definition UpdatedDateColumn :: "proto_object \<Rightarrow> string \<Rightarrow> heap \<Rightarrow> unit outcome \<times> heap" where
  "UpdatedDateColumn t key h =
     (case getMeta t h of
        (Throw e, h1) \<Rightarrow> (Throw e, h1)
      | (Return m, h1) \<Rightarrow>
          (Return (),
           update_entity m (\<lambda>e. e\<lparr>options := (options e)(''updatedAt'' \<mapsto> JStr key)\<rparr>) h1))"



text \<open>
  \<^verbatim>\<open>if (options == null) options = {}\<close>: the options object of the caller, or a new
  empty object.
\<close>

definition options_or_new :: "ref option \<Rightarrow> heap \<Rightarrow> ref \<times> heap" where
  "options_or_new opts h =
     (case opts of
        Some r \<Rightarrow> (r, h)
      | None \<Rightarrow> (next_ref h,
                 h\<lparr>objs := (objs h)(next_ref h := Map.empty), next_ref := Suc (next_ref h)\<rparr>))"

text \<open>
  \<^verbatim>\<open>meta.associations[key] = a\<close>. As for \<^verbatim>\<open>fields\<close>, the key \<^verbatim>\<open>__proto__\<close> runs the setter of
  \<^verbatim>\<open>Object.prototype\<close> unless \<^verbatim>\<open>associations\<close> has an own property of that name: the new
  association object becomes the prototype of \<^verbatim>\<open>associations\<close> and no property is added.
  (An association object has the own properties \<^verbatim>\<open>method\<close>, \<^verbatim>\<open>target\<close> and \<^verbatim>\<open>association\<close>
  only, so a prototype put in place earlier does not hide the accessor.)
\<close>

definition set_association_entry :: "string \<Rightarrow> association \<Rightarrow> entity \<Rightarrow> entity" where
  "set_association_entry key a e =
     (if key = ''__proto__'' \<and> map_of (associations e) key = None
      then e\<lparr>associations_proto := Some a\<rparr>
      else e\<lparr>associations := AList.update key a (associations e)\<rparr>)"

text \<open>
  \<^verbatim>\<open>options.as = key; meta.associations[key] = {method, target, association: options}\<close>,
  the common tail of the four association decorators.
\<close>

definition set_association ::
  "association_method \<Rightarrow> string \<Rightarrow> ref \<Rightarrow> mref \<Rightarrow> string \<Rightarrow> heap \<Rightarrow> heap" where
  "set_association meth tname r m key h =
     update_entity m
       (set_association_entry key \<lparr>target = tname, assoc_method = meth, association = r\<rparr>)
       (h\<lparr>objs := (objs h)(r := (objs h r)(''as'' \<mapsto> JStr key))\<rparr>)"

definition HasOne ::
  "string \<Rightarrow> ref option \<Rightarrow> proto_object \<Rightarrow> string \<Rightarrow> heap \<Rightarrow> unit outcome \<times> heap" where
  "HasOne typeFunction opts t key h =
     (case getMeta t h of
        (Throw e, h1) \<Rightarrow> (Throw e, h1)
      | (Return m, h1) \<Rightarrow>
          let (r, h2) = options_or_new opts h1
          in (Return (), set_association HAS_ONE typeFunction r m key h2))"

definition HasMany ::
  "string \<Rightarrow> ref option \<Rightarrow> proto_object \<Rightarrow> string \<Rightarrow> heap \<Rightarrow> unit outcome \<times> heap" where
  "HasMany typeFunction opts t key h =
     (case getMeta t h of
        (Throw e, h1) \<Rightarrow> (Throw e, h1)
      | (Return m, h1) \<Rightarrow>
          let (r, h2) = options_or_new opts h1
          in (Return (), set_association HAS_MANY typeFunction r m key h2))"

definition BelongsTo ::
  "string \<Rightarrow> ref option \<Rightarrow> proto_object \<Rightarrow> string \<Rightarrow> heap \<Rightarrow> unit outcome \<times> heap" where
  "BelongsTo typeFunction opts t key h =
     (case getMeta t h of
        (Throw e, h1) \<Rightarrow> (Throw e, h1)
      | (Return m, h1) \<Rightarrow>
          let (r, h2) = options_or_new opts h1
          in (Return (), set_association BELONGS_TO typeFunction r m key h2))"

definition ManyToMany ::
  "string \<Rightarrow> ref option \<Rightarrow> proto_object \<Rightarrow> string \<Rightarrow> heap \<Rightarrow> unit outcome \<times> heap" where
  "ManyToMany typeFunction opts t key h =
     (case getMeta t h of
        (Throw e, h1) \<Rightarrow> (Throw e, h1)
      | (Return m, h1) \<Rightarrow>
          let (r, h2) = options_or_new opts h1
          in if is_null (objs h2 r ''through'')
             then (Throw Through_required, h2)
             else (Return (), set_association BELONGS_TO_MANY typeFunction r m key h2))"

text \<open>\<^verbatim>\<open>IIndexOptions\<close>; \<open>None\<close> is null or undefined.\<close>

record index_options =
  opt_name :: "string option"
  opt_unique :: "bool option"

definition opt_val :: "('a \<Rightarrow> jsval) \<Rightarrow> 'a option \<Rightarrow> jsval" where
  "opt_val f v = (case v of None \<Rightarrow> Nullish | Some x \<Rightarrow> f x)"

text \<open>
  \<^verbatim>\<open>Index\<close>. The index found by name is an element of the array and is changed in
  place; it is then pushed again, like a new one. When \<^verbatim>\<open>meta.options.indexes\<close> holds
  something that is not an array, \<^verbatim>\<open>find\<close> or \<^verbatim>\<open>push\<close> is not a function, and neither is
  \<^verbatim>\<open>index.fields.push\<close> when the index found has no \<^verbatim>\<open>fields\<close> array; the runtime throws
  before anything is stored.
\<close>

definition Index ::
  "index_options option \<Rightarrow> proto_object \<Rightarrow> string \<Rightarrow> heap \<Rightarrow> unit outcome \<times> heap" where
  "Index opts t key h =
     (case getMeta t h of
        (Throw e, h1) \<Rightarrow> (Throw e, h1)
      | (Return m, h1) \<Rightarrow>
          let h2 = (if is_null (options (entity_at h1 m) ''indexes'')
                    then update_entity m
                           (\<lambda>e. e\<lparr>options := (options e)(''indexes'' \<mapsto> JArr (next_ref h1))\<rparr>)
                           (h1\<lparr>arrs := (arrs h1)(next_ref h1 := []),
                               next_ref := Suc (next_ref h1)\<rparr>)
                    else h1);
              options1 = (case opts of
                            None \<Rightarrow> \<lparr>opt_name = None, opt_unique = None\<rparr>
                          | Some ob \<Rightarrow> ob)
          in (case options (entity_at h2 m) ''indexes'' of
                Some (JArr a) \<Rightarrow>
                  (case (case opt_name options1 of
                           None \<Rightarrow> None
                         | Some n \<Rightarrow>
                             List.find (\<lambda>i. objs h2 i ''name'' = Some (JStr n)) (arrs h2 a)) of
                     None \<Rightarrow>
                       let i = next_ref h2;
                           index = clean [''name'' \<mapsto> opt_val JStr (opt_name options1),
                                          ''unique'' \<mapsto> opt_val JBool (opt_unique options1),
                                          ''fields'' \<mapsto> JStrs [key]]
                       in (Return (),
                           h2\<lparr>objs := (objs h2)(i := index),
                              arrs := (arrs h2)(a := arrs h2 a @ [i]),
                              next_ref := Suc i\<rparr>)
                   | Some i \<Rightarrow>
                       (case objs h2 i ''fields'' of
                          Some (JStrs fs) \<Rightarrow>
                            (Return (),
                             h2\<lparr>objs := (objs h2)
                                   (i := clean ((objs h2 i)(''fields'' \<mapsto> JStrs (fs @ [key])))),
                                arrs := (arrs h2)(a := arrs h2 a @ [i])\<rparr>)
                        | _ \<Rightarrow> (Throw TypeError, h2)))
              | _ \<Rightarrow> (Throw TypeError, h2)))"

subsection \<open>The mapping engine\<close>

text \<open>
  The engine is the third-party library; the module uses three things of it:
  \<^verbatim>\<open>sequelize.define\<close>, the object \<^verbatim>\<open>sequelize.models\<close>, and the four association
  methods of a model. \<open>calls\<close> logs the calls made to the engine, in order.
\<close>

text \<open>
  Modelled from the spec: a model handle and \<^verbatim>\<open>sequelize.models\<close> are objects of the engine,
  which is not part of the repository. The spec has registration return a "mapping from
  model name to model handle" and store "the resulting association accessor back on the
  model": both are mappings from names, read and written by name. A model handle records
  what it was defined with (of the attributes object, its own properties) and the
  properties that registration stores on it.
\<close>

datatype accessor = Accessor string

record model =
  model_name :: string
  attributes :: "string \<rightharpoonup> jsobj"
  model_options :: jsobj
  props :: "string \<rightharpoonup> accessor"

datatype call =
    Define_call string
  | Association_call string association_method string string
      \<comment> \<open>source model, method, target name, property\<close>

record sequelize =
  models :: "string \<rightharpoonup> model"
  calls :: "call list"

text \<open>
  Modelled from the spec: \<^verbatim>\<open>sequelize.define\<close> belongs to the mapping engine, which is
  not part of the repository. The spec has pass 1 "register its columns and options with
  the engine" and pass 2 "look up the already-registered target model by name":
  a definition makes a new model handle and stores it in \<^verbatim>\<open>sequelize.models\<close> under
  the name given, in place of an older one of that name.
\<close>

definition sequelize_define :: "string \<Rightarrow> (string \<rightharpoonup> jsobj) \<Rightarrow> jsobj \<Rightarrow> sequelize \<Rightarrow> sequelize" where
  "sequelize_define n attrs opts s =
     s\<lparr>models := (models s)(n \<mapsto> \<lparr>model_name = n, attributes = attrs, model_options = opts,
                                    props = Map.empty\<rparr>),
       calls := calls s @ [Define_call n]\<rparr>"

text \<open>
  The association methods \<^verbatim>\<open>model[method](target, options)\<close> are a parameter of the
  model: given the source model, the method, the target model found in
  \<^verbatim>\<open>sequelize.models\<close> (\<open>None\<close> when there is none) and the options object, the engine
  returns an association accessor or throws. What a method does inside the engine is not
  modelled: it is taken to add no entry to \<^verbatim>\<open>sequelize.models\<close> and to leave the metadata
  as it is.
\<close>

type_synonym engine =
  "model \<Rightarrow> association_method \<Rightarrow> model option \<Rightarrow> jsobj \<Rightarrow> accessor outcome"

subsection \<open>registerEntities\<close>

text \<open>
  \<^verbatim>\<open>Object.keys\<close>: the keys that are array indices first, in ascending numeric order,
  then the other keys in creation order.
\<close>

definition index_value :: "string \<Rightarrow> int" where
  "index_value s = foldl (\<lambda>n c. 10 * n + (of_char c - 48)) 0 s"

definition is_array_index :: "string \<Rightarrow> bool" where
  "is_array_index s =
     (s \<noteq> [] \<and> list_all (\<lambda>c. c \<in> set ''0123456789'') s
      \<and> (if length s = 1 then True else hd s \<noteq> CHR ''0'')
      \<and> index_value s < 2 ^ 32 - 1)"

definition Object_keys :: "(string \<times> 'a) list \<Rightarrow> string list" where
  "Object_keys al =
     sort_key index_value (filter is_array_index (map fst al))
     @ filter (\<lambda>k. \<not> is_array_index k) (map fst al)"

text \<open>Pass 1: \<^verbatim>\<open>sequelize.define(meta.name, meta.fields, meta.options)\<close> for each entity.\<close>

fun define_entities :: "func list \<Rightarrow> sequelize \<Rightarrow> heap \<Rightarrow> unit outcome \<times> sequelize \<times> heap" where
  "define_entities [] s h = (Return (), s, h)"
| "define_entities (entity # rest) s h =
     (let (e, h0) = Object_create (prototype entity) h
      in case getMeta e h0 of
           (Throw err, h1) \<Rightarrow> (Throw err, s, h1)
         | (Return m, h1) \<Rightarrow>
             let meta = entity_at h1 m
             in define_entities rest
                  (sequelize_define (name meta) (entity_fields meta) (options meta) s) h1)"

text \<open>
  The inner loop of pass 2 over the keys of \<^verbatim>\<open>meta.associations\<close>. \<open>model\<close> is the
  object found under \<^verbatim>\<open>entity.name\<close> before the loop; each assignment
  \<^verbatim>\<open>model[assnName] = ...\<close> changes that object, which \<^verbatim>\<open>sequelize.models\<close> holds.
\<close>

fun associate ::
  "engine \<Rightarrow> string \<Rightarrow> entity \<Rightarrow> string list \<Rightarrow> model \<Rightarrow> sequelize \<Rightarrow> heap
   \<Rightarrow> unit outcome \<times> sequelize" where
  "associate eng ename meta [] model s h = (Return (), s)"
| "associate eng ename meta (assnName # rest) model s h =
     (case map_of (associations meta) assnName of
        None \<Rightarrow> (Throw TypeError, s)
      | Some entityAssociation \<Rightarrow>
          let targetName = target entityAssociation;
              s1 = s\<lparr>calls := calls s @
                     [Association_call ename (assoc_method entityAssociation) targetName
                        assnName]\<rparr>
          in (case eng model (assoc_method entityAssociation) (models s targetName)
                     (objs h (association entityAssociation)) of
                Throw err \<Rightarrow> (Throw err, s1)
              | Return acc \<Rightarrow>
                  let model1 = model\<lparr>props := (props model)(assnName \<mapsto> acc)\<rparr>
                  in associate eng ename meta rest model1
                       (s1\<lparr>models := (models s1)(ename \<mapsto> model1)\<rparr>) h))"

text \<open>Pass 2.\<close>

fun associate_entities ::
  "engine \<Rightarrow> func list \<Rightarrow> sequelize \<Rightarrow> heap \<Rightarrow> unit outcome \<times> sequelize \<times> heap" where
  "associate_entities eng [] s h = (Return (), s, h)"
| "associate_entities eng (entity # rest) s h =
     (let (e, h0) = Object_create (prototype entity) h
      in case getMeta e h0 of
           (Throw err, h1) \<Rightarrow> (Throw err, s, h1)
         | (Return m, h1) \<Rightarrow>
             let meta = entity_at h1 m
             in (case models s (fname entity) of
                   None \<Rightarrow> associate_entities eng rest s h1
                 | Some model \<Rightarrow>
                     (case associate eng (fname entity) meta (Object_keys (associations meta))
                             model s h1 of
                        (Throw err, s1) \<Rightarrow> (Throw err, s1, h1)
                      | (Return u, s1) \<Rightarrow> associate_entities eng rest s1 h1)))"

definition registerEntities ::
  "engine \<Rightarrow> sequelize \<Rightarrow> func list \<Rightarrow> heap
   \<Rightarrow> (string \<rightharpoonup> model) outcome \<times> sequelize \<times> heap" where
  "registerEntities eng sequelize entities h =
     (case define_entities entities sequelize h of
        (Throw err, s1, h1) \<Rightarrow> (Throw err, s1, h1)
      | (Return u, s1, h1) \<Rightarrow>
          (case associate_entities eng entities s1 h1 of
             (Throw err, s2, h2) \<Rightarrow> (Throw err, s2, h2)
           | (Return v, s2, h2) \<Rightarrow> (Return (models s2), s2, h2)))"

subsection \<open>Reading the metadata\<close>

text \<open>
  The object whose store \<^verbatim>\<open>getMeta\<close> uses for a target, whether a metadata reference
  points into a store, and the record that \<^verbatim>\<open>getMeta\<close> hands out for a target.
\<close>

definition meta_owner :: "heap \<Rightarrow> proto_object \<Rightarrow> ref" where
  "meta_owner h t = (case store_owner h t of None \<Rightarrow> self t | Some y \<Rightarrow> y)"

definition valid_ref :: "heap \<Rightarrow> mref \<Rightarrow> bool" where
  "valid_ref h m = (snd m < length (the_store h (fst m)))"

definition read_meta :: "proto_object \<Rightarrow> heap \<Rightarrow> entity option" where
  "read_meta t h =
     (case getMeta t h of
        (Return m, h1) \<Rightarrow> Some (entity_at h1 m)
      | (Throw e, h1) \<Rightarrow> None)"

subsection \<open>Example classes\<close>

text \<open>
  Two classes without a common ancestor that carries metadata, and a heap in which
  neither has been decorated yet. They serve as concrete inputs.
\<close>

definition example_User :: func where
  "example_User =
     \<lparr>fname = ''User'', prototype = \<lparr>self = 0, ancestors = [], ctor = Some ''User''\<rparr>\<rparr>"

definition example_Post :: func where
  "example_Post =
     \<lparr>fname = ''Post'', prototype = \<lparr>self = 1, ancestors = [], ctor = Some ''Post''\<rparr>\<rparr>"

definition example_heap :: heap where
  "example_heap = empty_heap\<lparr>next_ref := 2\<rparr>"

text \<open>
  The same heap with one more object, at address 2: an options object that the caller
  holds and hands to a decorator.
\<close>

definition example_options :: "jsobj \<Rightarrow> heap" where
  "example_options ob = example_heap\<lparr>objs := (objs example_heap)(2 := ob), next_ref := 3\<rparr>"

text \<open>
  The association that \<^verbatim>\<open>meta.associations[key]\<close> reads: the own property of that name, and
  for the key \<^verbatim>\<open>__proto__\<close> without an own property the prototype of \<^verbatim>\<open>associations\<close>, when an
  association object has been put there.
\<close>

definition get_association :: "entity \<Rightarrow> string \<Rightarrow> association option" where
  "get_association e key =
     (case map_of (associations e) key of
        Some a \<Rightarrow> Some a
      | None \<Rightarrow> (if key = ''__proto__'' then associations_proto e else None))"

text \<open>
  The \<^verbatim>\<open>as\<close> option of the association that the metadata of a target holds under a
  property name (\<^verbatim>\<open>meta.associations[key].association.as\<close>), read through the reference to
  the options object.
\<close>

definition stored_as :: "proto_object \<Rightarrow> string \<Rightarrow> heap \<Rightarrow> jsval option" where
  "stored_as t key h =
     (case read_meta t h of
        None \<Rightarrow> None
      | Some e \<Rightarrow>
          (case get_association e key of
             None \<Rightarrow> None
           | Some a \<Rightarrow> objs h (association a) ''as''))"

text \<open>
  The value that the arguments of \<^verbatim>\<open>Entity\<close> give for an option: that of \<^verbatim>\<open>options\<close>, or,
  when \<^verbatim>\<open>options\<close> is absent, that of an object passed in the place of the name.
\<close>

definition given_option :: "name_arg \<Rightarrow> jsobj option \<Rightarrow> string \<Rightarrow> jsval option" where
  "given_option nm opts k =
     (case opts of
        Some ob \<Rightarrow> ob k
      | None \<Rightarrow> (case nm of Obj ob \<Rightarrow> ob k | _ \<Rightarrow> None))"

subsection \<open>Sequences of Index decorations\<close>

text \<open>
  The \<^verbatim>\<open>Index\<close> decorations of a class, applied to its prototype in the order in which
  the members are declared; a throw ends the sequence.
\<close>

fun Index_all ::
  "(index_options option \<times> string) list \<Rightarrow> proto_object \<Rightarrow> heap \<Rightarrow> unit outcome \<times> heap" where
  "Index_all [] t h = (Return (), h)"
| "Index_all ((opts, key) # rest) t h =
     (case Index opts t key h of
        (Throw e, h1) \<Rightarrow> (Throw e, h1)
      | (Return v, h1) \<Rightarrow> Index_all rest t h1)"

text \<open>Whether the options of an \<^verbatim>\<open>Index\<close> decoration give the name \<open>n\<close>.\<close>

definition has_name :: "string \<Rightarrow> index_options option \<Rightarrow> bool" where
  "has_name n opts = (case opts of None \<Rightarrow> False | Some ob \<Rightarrow> opt_name ob = Some n)"

text \<open>The properties decorated with an index of name \<open>n\<close>, in the order of the decorations.\<close>

definition keys_named :: "string \<Rightarrow> (index_options option \<times> string) list \<Rightarrow> string list" where
  "keys_named n ds = map snd (filter (\<lambda>d. has_name n (fst d)) ds)"

text \<open>The index objects in \<^verbatim>\<open>meta.options.indexes\<close> of a target, in array order.\<close>

definition stored_indexes :: "proto_object \<Rightarrow> heap \<Rightarrow> jsobj list" where
  "stored_indexes t h =
     (case read_meta t h of
        None \<Rightarrow> []
      | Some e \<Rightarrow>
          (case options e ''indexes'' of
             Some (JArr a) \<Rightarrow> map (objs h) (arrs h a)
           | _ \<Rightarrow> []))"

text \<open>
  The state between two \<^verbatim>\<open>Index\<close> decorations: the record exists and holds an array; every
  element of the array is an allocated object with a \<^verbatim>\<open>fields\<close> array; and the elements
  named \<open>n\<close> are all one object, whose fields are \<open>ks\<close> (none when \<open>ks\<close> is empty).
\<close>

definition index_inv :: "proto_object \<Rightarrow> string \<Rightarrow> string list \<Rightarrow> heap \<Rightarrow> bool" where
  "index_inv t n ks h =
     (\<exists>m a. getMeta t h = (Return m, h)
        \<and> options (entity_at h m) ''indexes'' = Some (JArr a)
        \<and> (\<forall>r\<in>set (arrs h a). r < next_ref h \<and> (\<exists>fs. objs h r ''fields'' = Some (JStrs fs)))
        \<and> (if ks = [] then \<forall>r\<in>set (arrs h a). objs h r ''name'' \<noteq> Some (JStr n)
            else \<exists>i\<in>set (arrs h a).
                   (\<forall>r\<in>set (arrs h a). (objs h r ''name'' = Some (JStr n)) = (r = i))
                   \<and> objs h i ''fields'' = Some (JStrs ks)))"

text \<open>\<^verbatim>\<open>options.name\<close> and \<^verbatim>\<open>options.unique\<close> after \<^verbatim>\<open>if (options == null) options = {}\<close>.\<close>

definition the_name :: "index_options option \<Rightarrow> string option" where
  "the_name opts = (case opts of None \<Rightarrow> None | Some ob \<Rightarrow> opt_name ob)"

definition the_unique :: "index_options option \<Rightarrow> bool option" where
  "the_unique opts = (case opts of None \<Rightarrow> None | Some ob \<Rightarrow> opt_unique ob)"

subsection \<open>Reading the log of engine calls\<close>

text \<open>The model name of a definition call; an association call has none.\<close>

fun defined_name :: "call \<Rightarrow> string option" where
  "defined_name (Define_call n) = Some n"
| "defined_name (Association_call src meth tgt key) = None"

definition is_define :: "call \<Rightarrow> bool" where
  "is_define c = (defined_name c \<noteq> None)"

subsection \<open>Registration without the heap\<close>

text \<open>
  An object exists in a heap when its identity and those of its prototype chain are below
  \<open>next_ref\<close>: \<^verbatim>\<open>Object.create\<close> then returns an object that is none of them.
\<close>

definition allocated :: "heap \<Rightarrow> proto_object \<Rightarrow> bool" where
  "allocated h t = list_all (\<lambda>x. x < next_ref h) (self t # ancestors t)"

text \<open>
  How registration changes the heap: it allocates objects, and it appends new, empty
  records to stores that exist; it changes no option object and no array.
\<close>

definition ext :: "heap \<Rightarrow> heap \<Rightarrow> bool" where
  "ext h h' =
     (next_ref h \<le> next_ref h' \<and> objs h' = objs h \<and> arrs h' = arrs h
      \<and> (\<forall>x<next_ref h.
            case stores h x of
              None \<Rightarrow> stores h' x = None
            | Some es \<Rightarrow> (\<exists>es'. stores h' x = Some (es @ es')
                                \<and> (\<forall>e\<in>set es'. e = new_entity (name e)))))"

text \<open>
  The metadata that registration reads for each entity of the list, paired with the name
  of the entity (\<^verbatim>\<open>entity.name\<close>), and the two passes as functions of these records alone.
\<close>

definition records :: "heap \<Rightarrow> func list \<Rightarrow> (string \<times> entity) list" where
  "records h cs =
     map (\<lambda>c. (fname c, case read_meta (prototype c) h of
                          Some e \<Rightarrow> e
                        | None \<Rightarrow> new_entity (fname c))) cs"

fun define_records :: "(string \<times> entity) list \<Rightarrow> sequelize \<Rightarrow> sequelize" where
  "define_records [] s = s"
| "define_records ((n, e) # rs) s =
     define_records rs (sequelize_define (name e) (entity_fields e) (options e) s)"

fun associate_records ::
  "engine \<Rightarrow> (string \<times> entity) list \<Rightarrow> sequelize \<Rightarrow> heap \<Rightarrow> unit outcome \<times> sequelize" where
  "associate_records eng [] s h = (Return (), s)"
| "associate_records eng ((n, e) # rs) s h =
     (case models s n of
        None \<Rightarrow> associate_records eng rs s h
      | Some model \<Rightarrow>
          (case associate eng n e (Object_keys (associations e)) model s h of
             (Throw err, s1) \<Rightarrow> (Throw err, s1)
           | (Return u, s1) \<Rightarrow> associate_records eng rs s1 h))"

text \<open>
  The record stored for a target under the name of its constructor, if there is one:
  the lookup of \<^verbatim>\<open>getMeta\<close> without the creation.
\<close>

definition stored_meta :: "heap \<Rightarrow> proto_object \<Rightarrow> entity option" where
  "stored_meta h t =
     (case ctor t of
        None \<Rightarrow> None
      | Some n \<Rightarrow> List.find (\<lambda>e. name e = n) (the_store h (meta_owner h t)))"

text \<open>The model handle that pass 1 defines from a metadata record.\<close>

definition model_of :: "entity \<Rightarrow> model" where
  "model_of e =
     \<lparr>model_name = name e, attributes = entity_fields e, model_options = options e,
      props = Map.empty\<rparr>"

text \<open>
  The example classes decorated: a column each, and \<^verbatim>\<open>Entity\<close> without arguments on
  \<^verbatim>\<open>User\<close>.
\<close>

definition example_decorated :: heap where
  "example_decorated =
     snd (Column [''type'' \<mapsto> JOpaque ''STRING''] (prototype example_Post) ''title''
       (snd (Entity Absent None example_User
         (snd (Column [''type'' \<mapsto> JOpaque ''STRING''] (prototype example_User) ''email''
                example_heap)))))"

text \<open>
  Two engines: one that rejects a missing target model, as the association methods of the
  library do, and one that accepts anything. And two engine states: one without models,
  one that holds a model defined elsewhere.
\<close>

definition strict_engine :: engine where
  "strict_engine src meth tgt opts =
     (case tgt of
        None \<Rightarrow> Throw (Engine_error ''called with something that is not a model'')
      | Some t \<Rightarrow> Return (Accessor (method_name meth)))"

definition lenient_engine :: engine where
  "lenient_engine src meth tgt opts = Return (Accessor (method_name meth))"

definition empty_sequelize :: sequelize where
  "empty_sequelize = \<lparr>models = Map.empty, calls = []\<rparr>"

definition legacy_sequelize :: sequelize where
  "legacy_sequelize = \<lparr>models = [''Legacy'' \<mapsto> model_of (new_entity ''Legacy'')], calls = []\<rparr>"

text \<open>The example class \<^verbatim>\<open>User\<close> decorated with \<^verbatim>\<open>@Entity('users')\<close>.\<close>

definition example_renamed :: heap where
  "example_renamed = snd (Entity (Str ''users'') None example_User example_heap)"

text \<open>The source model of an association call; a definition call has none.\<close>

fun association_source :: "call \<Rightarrow> string option" where
  "association_source (Define_call n) = None"
| "association_source (Association_call src meth tgt key) = Some src"

text \<open>
  \<^verbatim>\<open>User\<close> with an association to a class \<^verbatim>\<open>Profile\<close> that is never registered; \<^verbatim>\<open>User\<close> with
  an association to \<^verbatim>\<open>Post\<close>; and the latter decorated with \<^verbatim>\<open>@Entity('users')\<close> afterwards,
  as the class decorator runs after the member decorators.
\<close>

definition example_has_one :: heap where
  "example_has_one = snd (HasOne ''Profile'' None (prototype example_User) ''profile'' example_heap)"

definition example_belongs_to :: heap where
  "example_belongs_to =
     snd (BelongsTo ''Post'' None (prototype example_User) ''post'' example_heap)"

definition example_renamed_belongs_to :: heap where
  "example_renamed_belongs_to = snd (Entity (Str ''users'') None example_User example_belongs_to)"

subsection \<open>What a decorator changes\<close>







section \<open>Properties\<close>

subsection \<open>getMeta and the metadata store\<close>

lemma first_index_SomeD:
  "first_index P xs = Some i \<Longrightarrow> i < length xs \<and> P (xs ! i) \<and> (\<forall>j<i. \<not> P (xs ! j))"
proof (induction xs arbitrary: i)
  case Nil
  then show ?case by simp
next
  case (Cons x xs)
  show ?case
  proof (cases "P x")
    case True
    with Cons.prems show ?thesis by simp
  next
    case False
    with Cons.prems obtain k where k: "first_index P xs = Some k" "i = Suc k"
      by auto
    from Cons.IH[OF k(1)] False k(2) show ?thesis
      by (auto simp: less_Suc_eq_0_disj)
  qed
qed

lemma first_index_None_iff: "first_index P xs = None \<longleftrightarrow> (\<forall>x\<in>set xs. \<not> P x)"
  by (induction xs) auto

lemma first_index_cong_map: "map P xs = map P ys \<Longrightarrow> first_index P xs = first_index P ys"
proof (induction xs arbitrary: ys)
  case Nil
  then show ?case by simp
next
  case (Cons x xs)
  then obtain y ys' where "ys = y # ys'" by (cases ys) auto
  with Cons show ?case by auto
qed

lemma first_index_append_Some:
  "first_index P xs = Some i \<Longrightarrow> first_index P (xs @ ys) = Some i"
  by (induction xs arbitrary: i) (auto split: if_splits)

lemma first_index_snoc_None:
  "first_index P xs = None \<Longrightarrow>
     first_index P (xs @ [y]) = (if P y then Some (length xs) else None)"
  by (induction xs) (auto split: if_splits)

lemma find_first_index: "List.find P xs = map_option (\<lambda>i. xs ! i) (first_index P xs)"
  by (induction xs) (auto simp: option.map_comp comp_def)

lemma store_owner_None_self: "store_owner h t = None \<Longrightarrow> stores h (self t) = None"
  by (auto simp: store_owner_def split: if_splits)

lemma store_owner_Some_stores: "store_owner h t = Some y \<Longrightarrow> stores h y \<noteq> None"
  by (auto simp: store_owner_def find_Some_iff split: if_splits)

lemma store_owner_cong:
  "(\<And>x. (stores h' x = None) = (stores h x = None)) \<Longrightarrow> store_owner h' t = store_owner h t"
  by (simp add: store_owner_def)

lemma meta_owner_store_upd:
  "store_owner (h\<lparr>stores := (stores h)(meta_owner h t \<mapsto> es)\<rparr>) t = Some (meta_owner h t)"
proof (cases "store_owner h t")
  case None
  then show ?thesis by (simp add: store_owner_def meta_owner_def)
next
  case (Some y)
  have "store_owner (h\<lparr>stores := (stores h)(y \<mapsto> es)\<rparr>) t = store_owner h t"
    using store_owner_Some_stores[OF Some] by (intro store_owner_cong) auto
  with Some show ?thesis by (simp add: meta_owner_def)
qed

lemma meta_owner_store_upd_eq:
  "meta_owner (h\<lparr>stores := (stores h)(meta_owner h t \<mapsto> es)\<rparr>) t = meta_owner h t"
  unfolding meta_owner_def[of "h\<lparr>stores := (stores h)(meta_owner h t \<mapsto> es)\<rparr>" t]
  by (simp add: meta_owner_store_upd)

lemma getMeta_Throw: "ctor t = None \<Longrightarrow> getMeta t h = (Throw Invalid_entity, h)"
  by (simp add: getMeta_def)

lemma heap_stores_idem: "stores h x = Some es \<Longrightarrow> h\<lparr>stores := (stores h)(x \<mapsto> es)\<rparr> = h"
  by (simp add: fun_upd_idem)

lemma getMeta_found:
  assumes "ctor t = Some n"
    and "first_index (\<lambda>e. name e = n) (the_store h (meta_owner h t)) = Some i"
  shows "getMeta t h = (Return (meta_owner h t, i), h)"
proof (cases "store_owner h t")
  case None
  then have "the_store h (meta_owner h t) = []"
    by (simp add: meta_owner_def the_store_def store_owner_None_self)
  with assms(2) show ?thesis by simp
next
  case (Some y)
  with assms show ?thesis
    by (simp add: getMeta_def meta_owner_def)
qed

lemma getMeta_new:
  assumes "ctor t = Some n"
    and "first_index (\<lambda>e. name e = n) (the_store h (meta_owner h t)) = None"
  shows "getMeta t h =
           (Return (meta_owner h t, length (the_store h (meta_owner h t))),
            h\<lparr>stores := (stores h)
                 (meta_owner h t \<mapsto> the_store h (meta_owner h t) @ [new_entity n])\<rparr>)"
proof (cases "store_owner h t")
  case None
  have own: "store_owner (h\<lparr>stores := (stores h)(self t \<mapsto> [])\<rparr>) t = Some (self t)"
    by (simp add: store_owner_def)
  from None have "stores h (self t) = None" by (rule store_owner_None_self)
  with None own assms(1) show ?thesis
    by (simp add: getMeta_def meta_owner_def the_store_def Let_def)
next
  case (Some y)
  with assms show ?thesis
    by (simp add: getMeta_def meta_owner_def Let_def)
qed

lemma valid_ref_stores: "valid_ref h m \<Longrightarrow> stores h (fst m) = Some (the_store h (fst m))"
  by (auto simp: valid_ref_def the_store_def split: option.splits)

lemma the_store_update_entity:
  "the_store (update_entity m f h) x =
     (if x = fst m then (the_store h (fst m))[snd m := f (entity_at h m)] else the_store h x)"
  by (simp add: update_entity_def the_store_def)

lemma update_entity_frame [simp]:
  "objs (update_entity m f h) = objs h"
  "arrs (update_entity m f h) = arrs h"
  "next_ref (update_entity m f h) = next_ref h"
  by (simp_all add: update_entity_def)

lemma entity_at_update_entity:
  "valid_ref h m \<Longrightarrow> entity_at (update_entity m f h) m = f (entity_at h m)"
  by (simp add: entity_at_def the_store_update_entity valid_ref_def)


lemma valid_ref_update_entity [simp]:
  "valid_ref (update_entity m f h) m' = valid_ref h m'"
  by (simp add: valid_ref_def the_store_update_entity)

lemma update_entity_id:
  assumes "valid_ref h m" and "f (entity_at h m) = entity_at h m"
  shows "update_entity m f h = h"
proof -
  have "(the_store h (fst m))[snd m := f (entity_at h m)] = the_store h (fst m)"
    using assms(2) by (simp add: entity_at_def)
  then show ?thesis
    using valid_ref_stores[OF assms(1)] by (simp add: update_entity_def fun_upd_idem)
qed

lemma store_owner_update_entity:
  "valid_ref h m \<Longrightarrow> store_owner (update_entity m f h) t = store_owner h t"
  by (rule store_owner_cong) (auto simp: update_entity_def dest: valid_ref_stores)

text \<open>The result of getMeta, in one statement.\<close>

lemma getMeta_result:
  assumes "ctor t = Some n"
  obtains m h1 where "getMeta t h = (Return m, h1)" and "valid_ref h1 m"
    and "name (entity_at h1 m) = n" and "getMeta t h1 = (Return m, h1)"
    and "objs h1 = objs h" and "arrs h1 = arrs h" and "next_ref h1 = next_ref h"
    and "fst m = meta_owner h t"
proof (cases "first_index (\<lambda>e. name e = n) (the_store h (meta_owner h t))")
  case None
  define x where "x = meta_owner h t"
  define es where "es = the_store h x"
  define h1 where "h1 = h\<lparr>stores := (stores h)(x \<mapsto> es @ [new_entity n])\<rparr>"
  have g: "getMeta t h = (Return (x, length es), h1)"
    using getMeta_new[OF assms None] by (simp add: x_def es_def h1_def)
  have st: "the_store h1 x = es @ [new_entity n]" by (simp add: the_store_def h1_def)
  have own: "meta_owner h1 t = x"
    by (simp add: meta_owner_store_upd_eq h1_def x_def)
  have "first_index (\<lambda>e. name e = n) (es @ [new_entity n]) = Some (length es)"
    using first_index_snoc_None[OF None, of "new_entity n"]
    by (simp add: x_def es_def new_entity_def)
  then have fi: "first_index (\<lambda>e. name e = n) (the_store h1 (meta_owner h1 t)) = Some (length es)"
    by (simp add: own st)
  have "getMeta t h1 = (Return (x, length es), h1)"
    using getMeta_found[OF assms fi] by (simp add: own)
  moreover have "valid_ref h1 (x, length es)" by (simp add: valid_ref_def st)
  moreover have "name (entity_at h1 (x, length es)) = n"
    by (simp add: entity_at_def st new_entity_def)
  moreover have "objs h1 = objs h" "arrs h1 = arrs h" "next_ref h1 = next_ref h"
    by (simp_all add: h1_def)
  ultimately show ?thesis using g that[of "(x, length es)" h1] by (simp add: x_def)
next
  case (Some i)
  have g: "getMeta t h = (Return (meta_owner h t, i), h)"
    by (rule getMeta_found[OF assms Some])
  from first_index_SomeD[OF Some]
  have "valid_ref h (meta_owner h t, i)" "name (entity_at h (meta_owner h t, i)) = n"
    by (simp_all add: valid_ref_def entity_at_def)
  with g show ?thesis using that[of "(meta_owner h t, i)" h] by simp
qed

lemma getMeta_update_entity:
  assumes "ctor t = Some n" and "getMeta t h = (Return m, h)" and "valid_ref h m"
    and "name (f (entity_at h m)) = n"
  shows "getMeta t (update_entity m f h) = (Return m, update_entity m f h)"
proof -
  let ?h' = "update_entity m f h"
  have own: "meta_owner ?h' t = meta_owner h t"
    by (simp add: meta_owner_def store_owner_update_entity[OF assms(3)])
  obtain i where i: "first_index (\<lambda>e. name e = n) (the_store h (meta_owner h t)) = Some i"
    and m: "m = (meta_owner h t, i)"
  proof (cases "first_index (\<lambda>e. name e = n) (the_store h (meta_owner h t))")
    case None
    from getMeta_new[OF assms(1) None] assms(2) have "stores h = (stores h)(meta_owner h t \<mapsto> the_store h (meta_owner h t) @ [new_entity n])"
      by (metis (no_types, lifting) Pair_inject heap.select_convs(1) heap.surjective heap.update_convs(1))
    then have "stores h (meta_owner h t) = Some (the_store h (meta_owner h t) @ [new_entity n])"
      by (metis fun_upd_same)
    then show ?thesis by (auto simp: the_store_def split: option.splits)
  next
    case (Some i)
    from getMeta_found[OF assms(1) Some] assms(2) that Some show ?thesis by simp
  qed
  from first_index_SomeD[OF i] have nm: "name (the_store h (meta_owner h t) ! i) = n"
    and len: "i < length (the_store h (meta_owner h t))" by simp_all
  have "map (\<lambda>e. name e = n) (the_store ?h' (meta_owner h t))
        = map (\<lambda>e. name e = n) (the_store h (meta_owner h t))"
    using assms(4) nm len
    by (simp add: the_store_update_entity m entity_at_def map_update list_update_same_conv)
  from first_index_cong_map[OF this] i
  have "first_index (\<lambda>e. name e = n) (the_store ?h' (meta_owner ?h' t)) = Some i"
    by (simp add: own)
  from getMeta_found[OF assms(1) this] own show ?thesis by (simp add: m)
qed

lemma default_timestamps_idem:
  "default_timestamp ''updatedAt'' (default_timestamp ''createdAt''
     (Object_assign Map.empty
        (default_timestamp ''updatedAt'' (default_timestamp ''createdAt'' ob))))
   = default_timestamp ''updatedAt'' (default_timestamp ''createdAt'' ob)"
  by (auto simp: default_timestamp_def Object_assign_def is_null_def)

lemma Entity_Absent_eq:
  assumes "getMeta (prototype c) h = (Return m, h1)"
  shows "Entity Absent None c h =
           (Return (),
            update_entity m
              (\<lambda>e. e\<lparr>name := fname c,
                     options := default_timestamp ''updatedAt'' (default_timestamp ''createdAt''
                                  (Object_assign Map.empty (options (entity_at h1 m))))\<rparr>) h1)"
  using assms by (simp add: Entity_def Let_def)

lemma settledD:
  assumes "ctor t = Some n" and "getMeta t h = (Return m, h)"
  shows "\<exists>i. first_index (\<lambda>e. name e = n) (the_store h (meta_owner h t)) = Some i
             \<and> m = (meta_owner h t, i)"
proof (cases "first_index (\<lambda>e. name e = n) (the_store h (meta_owner h t))")
  case None
  from getMeta_new[OF assms(1) None] assms(2)
  have "stores h = (stores h)(meta_owner h t \<mapsto> the_store h (meta_owner h t) @ [new_entity n])"
    by (metis (no_types, lifting) Pair_inject heap.select_convs(1) heap.surjective
        heap.update_convs(1))
  then have "stores h (meta_owner h t) = Some (the_store h (meta_owner h t) @ [new_entity n])"
    by (metis fun_upd_same)
  then show ?thesis by (auto simp: the_store_def split: option.splits)
next
  case (Some i)
  from getMeta_found[OF assms(1) Some] assms(2) Some show ?thesis by simp
qed

lemma settled_stored_meta:
  assumes "ctor t = Some n" and "getMeta t h = (Return m, h)"
  shows "stored_meta h t = Some (entity_at h m)"
  using settledD[OF assms] assms(1)
  by (auto simp: stored_meta_def find_first_index entity_at_def)

lemma settled_cong:
  assumes "ctor t = Some n" and "getMeta t h = (Return m, h)" and "stores h' = stores h"
  shows "getMeta t h' = (Return m, h')"
proof -
  from settledD[OF assms(1,2)] obtain i
    where i: "first_index (\<lambda>e. name e = n) (the_store h (meta_owner h t)) = Some i"
      and m: "m = (meta_owner h t, i)" by blast
  have own: "meta_owner h' t = meta_owner h t"
    using assms(3) by (simp add: meta_owner_def store_owner_def)
  have "the_store h' = the_store h"
    using assms(3) by (simp add: the_store_def fun_eq_iff)
  with i own have "first_index (\<lambda>e. name e = n) (the_store h' (meta_owner h' t)) = Some i"
    by simp
  from getMeta_found[OF assms(1) this] show ?thesis by (simp add: own m)
qed

lemma read_meta_after_update:
  assumes "ctor t = Some n" and "getMeta t h1 = (Return m, h1)" and "valid_ref h1 m"
    and "stores h2 = stores h1" and "name (f (entity_at h2 m)) = n"
  shows "read_meta t (update_entity m f h2) = Some (f (entity_at h1 m))"
proof -
  have st: "the_store h2 = the_store h1"
    using assms(4) by (simp add: the_store_def fun_eq_iff)
  have g2: "getMeta t h2 = (Return m, h2)" by (rule settled_cong[OF assms(1,2,4)])
  have v2: "valid_ref h2 m" using assms(3) by (simp add: valid_ref_def st)
  have "getMeta t (update_entity m f h2) = (Return m, update_entity m f h2)"
    by (rule getMeta_update_entity[where f = f, OF assms(1) g2 v2 assms(5)])
  then show ?thesis
    by (simp add: read_meta_def entity_at_update_entity[OF v2]) (simp add: entity_at_def st)
qed

subsection \<open>Entity\<close>

text \<open>
  C5. Applying \<^verbatim>\<open>Entity\<close> with no name and no options to a class twice is idempotent: the
  second application returns and leaves the heap exactly as the first one left it, and
  after the first application as after the second a record is stored for the class under
  the name of the class; it is the record that \<^verbatim>\<open>getMeta\<close> found or made for the first
  application.
\<close>

theorem Entity_twice_idempotent:
  assumes "is_class c"
  shows "fst (Entity Absent None c h) = Return ()
       \<and> Entity Absent None c (snd (Entity Absent None c h))
           = (Return (), snd (Entity Absent None c h))
       \<and> map_option name (stored_meta (snd (Entity Absent None c h)) (prototype c))
           = Some (fname c)
       \<and> map_option name
            (stored_meta (snd (Entity Absent None c (snd (Entity Absent None c h)))) (prototype c))
           = Some (fname c)
       \<and> (\<exists>m h1. getMeta (prototype c) h = (Return m, h1)
              \<and> stored_meta (snd (Entity Absent None c h)) (prototype c)
                  = Some (entity_at (snd (Entity Absent None c h)) m)
              \<and> name (entity_at (snd (Entity Absent None c h)) m) = fname c)"
proof -
  from assms have ct: "ctor (prototype c) = Some (fname c)" by (simp add: is_class_def)
  obtain m h1 where g: "getMeta (prototype c) h = (Return m, h1)" and v: "valid_ref h1 m"
    and g1: "getMeta (prototype c) h1 = (Return m, h1)"
    by (rule getMeta_result[OF ct])
  define O1 where "O1 = default_timestamp ''updatedAt'' (default_timestamp ''createdAt''
                          (Object_assign Map.empty (options (entity_at h1 m))))"
  define h2 where "h2 = update_entity m (\<lambda>e. e\<lparr>name := fname c, options := O1\<rparr>) h1"
  have e1: "Entity Absent None c h = (Return (), h2)"
    using Entity_Absent_eq[OF g] by (simp add: h2_def O1_def)
  have g2: "getMeta (prototype c) h2 = (Return m, h2)"
    unfolding h2_def by (rule getMeta_update_entity[OF ct g1 v]) simp
  have at2: "entity_at h2 m = (entity_at h1 m)\<lparr>name := fname c, options := O1\<rparr>"
    unfolding h2_def by (rule entity_at_update_entity[OF v])
  have v2: "valid_ref h2 m" using v by (simp add: h2_def)
  have O1_idem: "default_timestamp ''updatedAt'' (default_timestamp ''createdAt''
                   (Object_assign Map.empty O1)) = O1"
    unfolding O1_def by (rule default_timestamps_idem)
  have e2: "Entity Absent None c h2 = (Return (), h2)"
    using Entity_Absent_eq[OF g2] update_entity_id[OF v2, of "\<lambda>e. e\<lparr>name := fname c, options := O1\<rparr>"]
    by (simp add: at2 O1_idem)
  have sm: "stored_meta h2 (prototype c) = Some (entity_at h2 m)"
    by (rule settled_stored_meta[OF ct g2])
  have nm: "name (entity_at h2 m) = fname c" by (simp add: at2)
  from g sm nm have "\<exists>m h1. getMeta (prototype c) h = (Return m, h1)
              \<and> stored_meta h2 (prototype c) = Some (entity_at h2 m)
              \<and> name (entity_at h2 m) = fname c" by blast
  with e2 sm nm show ?thesis by (simp add: e1)
qed

theorem Entity_twice_idempotent_witness:
  "is_class example_User
   \<and> stored_meta example_heap (prototype example_User) = None
   \<and> fst (Entity Absent None example_User example_heap) = Return ()
   \<and> Entity Absent None example_User (snd (Entity Absent None example_User example_heap))
       = (Return (), snd (Entity Absent None example_User example_heap))
   \<and> map_option name
         (stored_meta (snd (Entity Absent None example_User example_heap)) (prototype example_User))
       = Some ''User''"
proof -
  have 1: "is_class example_User" by (simp add: is_class_def example_User_def)
  have 2: "stored_meta example_heap (prototype example_User) = None"
    by (simp add: stored_meta_def meta_owner_def store_owner_def the_store_def example_User_def
        example_heap_def empty_heap_def)
  from Entity_twice_idempotent[OF 1, of example_heap] 1 2 show ?thesis
    by (simp add: example_User_def)
qed

lemma getMeta_ReturnD:
  assumes "getMeta t h = (Return m, h1)"
  obtains n where "ctor t = Some n" and "valid_ref h1 m" and "name (entity_at h1 m) = n"
    and "getMeta t h1 = (Return m, h1)" and "objs h1 = objs h" and "arrs h1 = arrs h"
    and "next_ref h1 = next_ref h" and "fst m = meta_owner h t"
proof (cases "ctor t")
  case None
  with assms show ?thesis by (simp add: getMeta_Throw)
next
  case (Some n)
  show ?thesis
    by (rule getMeta_result[OF Some, of h]) (use assms Some that in auto)
qed

lemma Entity_eq:
  assumes "getMeta (prototype c) h = (Return m, h1)"
  shows "Entity nm opts c h =
           (Return (),
            update_entity m
              (\<lambda>e. e\<lparr>name := (case nm of Str s \<Rightarrow> s | _ \<Rightarrow> fname c),
                     options := default_timestamp ''updatedAt'' (default_timestamp ''createdAt''
                       (Object_assign
                          (case (case nm of
                                   Obj ob \<Rightarrow> (if opts = None
                                              then Some (Object_assign ob (options (entity_at h1 m)))
                                              else opts)
                                 | _ \<Rightarrow> opts) of None \<Rightarrow> Map.empty | Some ob \<Rightarrow> ob)
                          (options (entity_at h1 m))))\<rparr>) h1)"
  using assms by (simp add: Entity_def Let_def)

lemma Entity_merged:
  "Object_assign
     (case (case nm of
              Obj ob \<Rightarrow> (if opts = None then Some (Object_assign ob old) else opts)
            | _ \<Rightarrow> opts) of None \<Rightarrow> Map.empty | Some ob \<Rightarrow> ob) old k
   = (case old k of Some v \<Rightarrow> Some v | None \<Rightarrow> given_option nm opts k)"
proof (cases opts)
  case None
  then show ?thesis
    by (cases nm) (simp_all add: Object_assign_def map_add_def given_option_def
        split: option.splits)
next
  case (Some ob)
  then show ?thesis
    by (cases nm) (simp_all add: Object_assign_def map_add_def given_option_def
        split: option.splits)
qed

lemma default_timestamps_apply:
  "k = ''createdAt'' \<or> k = ''updatedAt'' \<Longrightarrow>
     default_timestamp ''updatedAt'' (default_timestamp ''createdAt'' ob) k
     = (if is_null (ob k) then Some (JBool False) else ob k)"
  by (auto simp: default_timestamp_def)

lemma Entity_timestamp:
  assumes "getMeta (prototype c) h = (Return m, h1)"
    and "k = ''createdAt'' \<or> k = ''updatedAt''"
  shows "options (entity_at (snd (Entity nm opts c h)) m) k =
           (case options (entity_at h1 m) k of
              Some v \<Rightarrow> (if v = Nullish then Some (JBool False) else Some v)
            | None \<Rightarrow> (if is_null (given_option nm opts k) then Some (JBool False)
                       else given_option nm opts k))"
proof -
  from assms(1) have v: "valid_ref h1 m" by (rule getMeta_ReturnD)
  have "options (entity_at (snd (Entity nm opts c h)) m) k =
          (if is_null (case options (entity_at h1 m) k of Some v \<Rightarrow> Some v
                       | None \<Rightarrow> given_option nm opts k)
           then Some (JBool False)
           else (case options (entity_at h1 m) k of Some v \<Rightarrow> Some v
                 | None \<Rightarrow> given_option nm opts k))"
    by (simp add: Entity_eq[OF assms(1)] entity_at_update_entity[OF v]
        default_timestamps_apply[OF assms(2)] Entity_merged)
  then show ?thesis
    by (simp add: is_null_def split: option.splits)
qed

lemma CreatedDateColumn_eq:
  assumes "getMeta t h = (Return m, h1)"
  shows "CreatedDateColumn t key h =
           (Return (), update_entity m (\<lambda>e. e\<lparr>options := (options e)(''createdAt'' \<mapsto> JStr key)\<rparr>) h1)"
  using assms by (simp add: CreatedDateColumn_def)

lemma UpdatedDateColumn_eq:
  assumes "getMeta t h = (Return m, h1)"
  shows "UpdatedDateColumn t key h =
           (Return (), update_entity m (\<lambda>e. e\<lparr>options := (options e)(''updatedAt'' \<mapsto> JStr key)\<rparr>) h1)"
  using assms by (simp add: UpdatedDateColumn_def)

lemma Entity_after_option_set:
  assumes "getMeta (prototype c) h = (Return m, h1)"
    and "k = ''createdAt'' \<or> k = ''updatedAt''"
  shows "options (entity_at
            (snd (Entity nm opts c
                    (update_entity m (\<lambda>e. e\<lparr>options := (options e)(k \<mapsto> JStr key)\<rparr>) h1))) m) k
         = Some (JStr key)"
proof -
  let ?f = "\<lambda>e. e\<lparr>options := (options e)(k \<mapsto> JStr key)\<rparr>"
  from assms(1) obtain n where ct: "ctor (prototype c) = Some n" and v: "valid_ref h1 m"
    and nm: "name (entity_at h1 m) = n" and g1: "getMeta (prototype c) h1 = (Return m, h1)"
    by (rule getMeta_ReturnD)
  have g2: "getMeta (prototype c) (update_entity m ?f h1) = (Return m, update_entity m ?f h1)"
    by (rule getMeta_update_entity[where f = ?f, OF ct g1 v]) (simp add: nm)
  show ?thesis
    by (simp add: Entity_timestamp[OF g2 assms(2)] entity_at_update_entity[OF v])
qed

text \<open>
  C10, as amended. After \<^verbatim>\<open>Entity\<close> has run, \<^verbatim>\<open>createdAt\<close> (and likewise \<^verbatim>\<open>updatedAt\<close>) of the
  stored options is the value stored before when there was one that is not null,
  otherwise the value that the arguments of \<^verbatim>\<open>Entity\<close> give when they give one that is not
  null, and \<^verbatim>\<open>false\<close> otherwise. A property name that \<^verbatim>\<open>CreatedDateColumn\<close> or
  \<^verbatim>\<open>UpdatedDateColumn\<close> has stored is therefore kept.
\<close>

theorem Entity_timestamp_defaults:
  assumes "getMeta (prototype c) h = (Return m, h1)"
  shows "options (entity_at (snd (Entity nm opts c h)) m) ''createdAt'' =
           (case options (entity_at h1 m) ''createdAt'' of
              Some v \<Rightarrow> (if v = Nullish then Some (JBool False) else Some v)
            | None \<Rightarrow> (if is_null (given_option nm opts ''createdAt'') then Some (JBool False)
                       else given_option nm opts ''createdAt''))
       \<and> options (entity_at (snd (Entity nm opts c h)) m) ''updatedAt'' =
           (case options (entity_at h1 m) ''updatedAt'' of
              Some v \<Rightarrow> (if v = Nullish then Some (JBool False) else Some v)
            | None \<Rightarrow> (if is_null (given_option nm opts ''updatedAt'') then Some (JBool False)
                       else given_option nm opts ''updatedAt''))
       \<and> options (entity_at
             (snd (Entity nm opts c (snd (CreatedDateColumn (prototype c) key h)))) m)
             ''createdAt'' = Some (JStr key)
       \<and> options (entity_at
             (snd (Entity nm opts c (snd (UpdatedDateColumn (prototype c) key h)))) m)
             ''updatedAt'' = Some (JStr key)"
  using Entity_timestamp[OF assms, of "''createdAt''"] Entity_timestamp[OF assms, of "''updatedAt''"]
    Entity_after_option_set[OF assms, of "''createdAt''"]
    Entity_after_option_set[OF assms, of "''updatedAt''"]
  by (simp add: CreatedDateColumn_eq[OF assms] UpdatedDateColumn_eq[OF assms])

lemma example_getMeta_User:
  "getMeta (prototype example_User) example_heap =
     (Return (0, 0), example_heap\<lparr>stores := [0 \<mapsto> [new_entity ''User'']]\<rparr>)"
  by (simp add: getMeta_def example_User_def example_heap_def empty_heap_def store_owner_def
      the_store_def Let_def)

theorem Entity_timestamp_defaults_witness:
  "getMeta (prototype example_User) example_heap =
     (Return (0, 0), example_heap\<lparr>stores := [0 \<mapsto> [new_entity ''User'']]\<rparr>)
   \<and> options (entity_at (snd (Entity (Str ''users'') None example_User example_heap)) (0, 0))
         ''createdAt'' = Some (JBool False)
   \<and> options (entity_at
         (snd (Entity (Str ''users'') None example_User
                 (snd (CreatedDateColumn (prototype example_User) ''created'' example_heap))))
         (0, 0)) ''createdAt'' = Some (JStr ''created'')"
  using Entity_timestamp_defaults[OF example_getMeta_User, of "Str ''users''" None "''created''"]
  by (simp add: example_getMeta_User entity_at_def the_store_def new_entity_def given_option_def
      is_null_def)

text \<open>
  C10 as stated fails: \<^verbatim>\<open>createdAt\<close> is not stored for the class, \<^verbatim>\<open>Entity\<close> is given
  \<^verbatim>\<open>{createdAt: 'created_on'}\<close>, and the stored value is then that name, not \<^verbatim>\<open>false\<close>.
\<close>

theorem Entity_timestamp_counterexample:
  "map_option (\<lambda>e. options e ''createdAt'') (read_meta (prototype example_User) example_heap)
     = Some None
   \<and> map_option (\<lambda>e. options e ''createdAt'')
       (read_meta (prototype example_User)
          (snd (Entity Absent (Some [''createdAt'' \<mapsto> JStr ''created_on'']) example_User
                  example_heap)))
     = Some (Some (JStr ''created_on''))"
proof -
  define H1 where "H1 = example_heap\<lparr>stores := [0 \<mapsto> [new_entity ''User'']]\<rparr>"
  define F where "F = (\<lambda>e::entity. e\<lparr>name := ''User'',
      options := [''createdAt'' \<mapsto> JStr ''created_on'', ''updatedAt'' \<mapsto> JBool False]\<rparr>)"
  have g: "getMeta (prototype example_User) example_heap = (Return (0, 0), H1)"
    by (simp add: example_getMeta_User H1_def)
  from g obtain n where ct: "ctor (prototype example_User) = Some n" and v: "valid_ref H1 (0, 0)"
    and nm: "name (entity_at H1 (0, 0)) = n"
    and g1: "getMeta (prototype example_User) H1 = (Return (0, 0), H1)"
    by (rule getMeta_ReturnD)
  have at: "entity_at H1 (0, 0) = new_entity ''User''"
    by (simp add: H1_def entity_at_def the_store_def)
  have n: "n = ''User''" using nm by (simp add: at new_entity_def)
  have "Entity Absent (Some [''createdAt'' \<mapsto> JStr ''created_on'']) example_User example_heap
        = (Return (), update_entity (0, 0) F H1)"
    by (subst Entity_eq[OF g])
      (simp add: F_def at new_entity_def default_timestamp_def Object_assign_def is_null_def
        example_User_def fun_eq_iff)
  moreover have "read_meta (prototype example_User) (update_entity (0, 0) F H1)
                 = Some (F (entity_at H1 (0, 0)))"
    by (rule read_meta_after_update[where f = F, OF ct g1 v refl]) (simp add: F_def n)
  moreover have "read_meta (prototype example_User) example_heap = Some (new_entity ''User'')"
    by (simp add: read_meta_def g at)
  ultimately show ?thesis by (simp add: F_def new_entity_def)
qed

subsection \<open>The association decorators\<close>

lemma options_or_new_stores:
  "options_or_new opts h = (r, h2) \<Longrightarrow> stores h2 = stores h \<and> arrs h2 = arrs h"
  by (auto simp: options_or_new_def split: option.splits)

lemma options_or_new_Some [simp]: "options_or_new (Some r) h = (r, h)"
  by (simp add: options_or_new_def)

lemma set_field_simps [simp]:
  "name (set_field key a e) = name e"
  "options (set_field key a e) = options e"
  "associations (set_field key a e) = associations e"
  "associations_proto (set_field key a e) = associations_proto e"
  by (simp_all add: set_field_def)

lemma set_association_entry_simps [simp]:
  "name (set_association_entry key a e) = name e"
  "options (set_association_entry key a e) = options e"
  "entity_fields (set_association_entry key a e) = entity_fields e"
  "fields_proto (set_association_entry key a e) = fields_proto e"
  by (simp_all add: set_association_entry_def)

lemma get_association_set [simp]:
  "get_association (set_association_entry key a e) key = Some a"
  by (simp add: get_association_def set_association_entry_def update_conv')

lemma set_association_as:
  assumes "ctor t = Some n" and "getMeta t h1 = (Return m, h1)" and "valid_ref h1 m"
    and "name (entity_at h1 m) = n" and "stores h2 = stores h1"
  shows "stored_as t key (set_association meth tf r m key h2) = Some (JStr key)"
proof -
  let ?f = "set_association_entry key \<lparr>target = tf, assoc_method = meth, association = r\<rparr>"
  let ?h = "h2\<lparr>objs := (objs h2)(r := (objs h2 r)(''as'' \<mapsto> JStr key))\<rparr>"
  have st: "stores ?h = stores h1" using assms(5) by simp
  have "entity_at ?h m = entity_at h1 m"
    using assms(5) by (simp add: entity_at_def the_store_def)
  then have nm: "name (?f (entity_at ?h m)) = n" using assms(4) by simp
  have "read_meta t (update_entity m ?f ?h) = Some (?f (entity_at h1 m))"
    by (rule read_meta_after_update[where f = ?f, OF assms(1,2,3) st nm])
  then show ?thesis
    by (simp add: stored_as_def set_association_def)
qed

text \<open>
  C9. After \<^verbatim>\<open>HasOne\<close>, \<^verbatim>\<open>HasMany\<close> or \<^verbatim>\<open>BelongsTo\<close> on a property, and after \<^verbatim>\<open>ManyToMany\<close>
  whenever it does not throw, the options of the association stored under the property
  have \<^verbatim>\<open>as\<close> equal to the name of the property, whatever \<^verbatim>\<open>as\<close> the options object of the
  caller held before.
\<close>

theorem association_as_is_key:
  assumes "ctor t = Some n"
  shows "fst (HasOne tf opts t key h) = Return ()
       \<and> stored_as t key (snd (HasOne tf opts t key h)) = Some (JStr key)
       \<and> fst (HasMany tf opts t key h) = Return ()
       \<and> stored_as t key (snd (HasMany tf opts t key h)) = Some (JStr key)
       \<and> fst (BelongsTo tf opts t key h) = Return ()
       \<and> stored_as t key (snd (BelongsTo tf opts t key h)) = Some (JStr key)
       \<and> (if is_null (objs h r ''through'')
          then fst (ManyToMany tf (Some r) t key h) = Throw Through_required
          else fst (ManyToMany tf (Some r) t key h) = Return ()
             \<and> stored_as t key (snd (ManyToMany tf (Some r) t key h)) = Some (JStr key))"
proof -
  obtain m h1 where g: "getMeta t h = (Return m, h1)" and v: "valid_ref h1 m"
    and nm: "name (entity_at h1 m) = n" and g1: "getMeta t h1 = (Return m, h1)"
    and ob: "objs h1 = objs h"
    by (rule getMeta_result[OF assms])
  obtain r' h2 where o: "options_or_new opts h1 = (r', h2)" by (cases "options_or_new opts h1")
  from options_or_new_stores[OF o] have st: "stores h2 = stores h1" by simp
  note as = set_association_as[OF assms g1 v nm]
  show ?thesis
    using as[OF st] as[of h1] by (simp add: HasOne_def HasMany_def BelongsTo_def ManyToMany_def g o ob)
qed

theorem association_as_is_key_witness:
  "ctor (prototype example_User) = Some ''User''
   \<and> objs (example_options [''as'' \<mapsto> JStr ''owner'']) 2 ''as''
       = Some (JStr ''owner'')
   \<and> stored_as (prototype example_User) ''posts''
        (snd (HasMany ''Post'' (Some 2) (prototype example_User) ''posts''
               (example_options [''as'' \<mapsto> JStr ''owner''])))
       = Some (JStr ''posts'')
   \<and> fst (ManyToMany ''Post'' (Some 2) (prototype example_User) ''posts''
            (example_options [''as'' \<mapsto> JStr ''owner'']))
       = Throw Through_required"
  using association_as_is_key[of "prototype example_User" "''User''" "''Post''" "Some 2" "''posts''"
      "example_options [''as'' \<mapsto> JStr ''owner'']" 2]
  by (simp add: example_User_def is_null_def example_options_def)

lemma getMeta_stores:
  assumes "ctor t = Some n"
  shows "stores (snd (getMeta t h)) =
           (if list_ex (\<lambda>e. name e = n) (the_store h (meta_owner h t)) then stores h
            else (stores h)(meta_owner h t \<mapsto> the_store h (meta_owner h t) @ [new_entity n]))"
proof (cases "first_index (\<lambda>e. name e = n) (the_store h (meta_owner h t))")
  case None
  then have "\<not> list_ex (\<lambda>e. name e = n) (the_store h (meta_owner h t))"
    by (simp add: first_index_None_iff list_ex_iff)
  then show ?thesis by (simp add: getMeta_new[OF assms None])
next
  case (Some i)
  from first_index_SomeD[OF Some]
  have "the_store h (meta_owner h t) ! i \<in> set (the_store h (meta_owner h t))"
    and "name (the_store h (meta_owner h t) ! i) = n" by simp_all
  then have "list_ex (\<lambda>e. name e = n) (the_store h (meta_owner h t))"
    unfolding list_ex_iff by blast
  then show ?thesis by (simp add: getMeta_found[OF assms Some])
qed

lemma read_meta_getMeta:
  "read_meta t (snd (getMeta t h)) = read_meta t h"
proof (cases "ctor t")
  case None
  then show ?thesis by (simp add: getMeta_Throw)
next
  case (Some n)
  obtain m h1 where "getMeta t h = (Return m, h1)" "getMeta t h1 = (Return m, h1)"
    by (rule getMeta_result[OF Some])
  then show ?thesis by (simp add: read_meta_def)
qed

lemma read_meta_stores_cong: "stores h' = stores h \<Longrightarrow> read_meta t h' = read_meta t h"
  by (simp add: read_meta_def getMeta_def store_owner_def the_store_def entity_at_def Let_def
      split: option.splits)

text \<open>
  C2, as amended. \<^verbatim>\<open>ManyToMany\<close> on a class without a join entity (no options, or options
  whose \<^verbatim>\<open>through\<close> is null) throws. \<^verbatim>\<open>getMeta\<close> has run by then: when the class has a
  metadata record the stores are unchanged, otherwise the only change is the new, empty
  record of the class; the record that \<^verbatim>\<open>getMeta\<close> yields for the class is the same before
  and after, no array changes, and no object that existed before changes.
\<close>

theorem ManyToMany_without_through:
  assumes "ctor t = Some n"
    and "opts = None \<or> (\<exists>r. opts = Some r \<and> is_null (objs h r ''through''))"
  shows "fst (ManyToMany tf opts t key h) = Throw Through_required
       \<and> stores (snd (ManyToMany tf opts t key h)) =
           (if list_ex (\<lambda>e. name e = n) (the_store h (meta_owner h t)) then stores h
            else (stores h)(meta_owner h t \<mapsto> the_store h (meta_owner h t) @ [new_entity n]))
       \<and> read_meta t (snd (ManyToMany tf opts t key h)) = read_meta t h
       \<and> arrs (snd (ManyToMany tf opts t key h)) = arrs h
       \<and> (\<forall>x. x \<noteq> next_ref h \<longrightarrow> objs (snd (ManyToMany tf opts t key h)) x = objs h x)"
proof -
  obtain m h1 where g: "getMeta t h = (Return m, h1)"
    and ob: "objs h1 = objs h" and ar: "arrs h1 = arrs h" and nx: "next_ref h1 = next_ref h"
    by (rule getMeta_result[OF assms(1)])
  from getMeta_stores[OF assms(1), of h] g
  have st: "stores h1 = (if list_ex (\<lambda>e. name e = n) (the_store h (meta_owner h t)) then stores h
            else (stores h)(meta_owner h t \<mapsto> the_store h (meta_owner h t) @ [new_entity n]))"
    by simp
  from read_meta_getMeta[of t h] g have rm: "read_meta t h1 = read_meta t h" by simp
  from assms(2) show ?thesis
  proof
    assume "opts = None"
    then have "ManyToMany tf opts t key h =
        (Throw Through_required,
         h1\<lparr>objs := (objs h1)(next_ref h1 := Map.empty), next_ref := Suc (next_ref h1)\<rparr>)"
      by (simp add: ManyToMany_def g options_or_new_def is_null_def)
    moreover have "read_meta t (h1\<lparr>objs := (objs h1)(next_ref h1 := Map.empty),
                                  next_ref := Suc (next_ref h1)\<rparr>) = read_meta t h1"
      by (rule read_meta_stores_cong) simp
    ultimately show ?thesis using st rm by (simp add: ob ar nx)
  next
    assume "\<exists>r. opts = Some r \<and> is_null (objs h r ''through'')"
    then have "ManyToMany tf opts t key h = (Throw Through_required, h1)"
      by (auto simp: ManyToMany_def g ob)
    then show ?thesis using st rm by (simp add: ob ar)
  qed
qed

theorem ManyToMany_without_through_witness:
  "ctor (prototype example_User) = Some ''User''
   \<and> fst (ManyToMany ''Post'' None (prototype example_User) ''posts''
            (snd (Entity Absent None example_User example_heap))) = Throw Through_required
   \<and> read_meta (prototype example_User)
        (snd (ManyToMany ''Post'' None (prototype example_User) ''posts''
               (snd (Entity Absent None example_User example_heap))))
       = read_meta (prototype example_User) (snd (Entity Absent None example_User example_heap))"
  using ManyToMany_without_through[of "prototype example_User" "''User''" None
      "snd (Entity Absent None example_User example_heap)" "''Post''" "''posts''"]
  by (simp add: example_User_def)

text \<open>
  C2 as stated fails for a class that has no metadata yet: the call throws, but it
  leaves a store with an empty record on the prototype, where there was none.
\<close>

theorem ManyToMany_without_through_counterexample:
  "fst (ManyToMany ''Post'' None (prototype example_User) ''posts'' example_heap)
     = Throw Through_required
   \<and> stores example_heap 0 = None
   \<and> stores (snd (ManyToMany ''Post'' None (prototype example_User) ''posts'' example_heap)) 0
     = Some [new_entity ''User'']"
  by (simp add: ManyToMany_def example_getMeta_User options_or_new_def is_null_def)
    (simp add: example_heap_def empty_heap_def)

subsection \<open>Index\<close>

lemma find_unique:
  assumes "i \<in> set xs" and "\<forall>r\<in>set xs. P r = (r = i)"
  shows "List.find P xs = Some i"
  using assms by (induction xs) auto

lemma Index_settled_new:
  assumes "getMeta t h = (Return m, h)"
    and "options (entity_at h m) ''indexes'' = Some (JArr a)"
    and "(case the_name opts of None \<Rightarrow> None
          | Some n \<Rightarrow> List.find (\<lambda>i. objs h i ''name'' = Some (JStr n)) (arrs h a)) = None"
  shows "Index opts t key h =
           (Return (),
            h\<lparr>objs := (objs h)(next_ref h :=
                   clean [''name'' \<mapsto> opt_val JStr (the_name opts),
                          ''unique'' \<mapsto> opt_val JBool (the_unique opts),
                          ''fields'' \<mapsto> JStrs [key]]),
              arrs := (arrs h)(a := arrs h a @ [next_ref h]),
              next_ref := Suc (next_ref h)\<rparr>)"
proof (cases opts)
  case None
  then show ?thesis
    using assms by (simp add: Index_def is_null_def the_name_def the_unique_def Let_def)
next
  case (Some ob)
  then show ?thesis
    using assms by (simp add: Index_def is_null_def the_name_def the_unique_def Let_def)
qed

lemma Index_settled_found:
  assumes "getMeta t h = (Return m, h)"
    and "options (entity_at h m) ''indexes'' = Some (JArr a)"
    and "the_name opts = Some n"
    and "List.find (\<lambda>i. objs h i ''name'' = Some (JStr n)) (arrs h a) = Some i"
    and "objs h i ''fields'' = Some (JStrs fs)"
  shows "Index opts t key h =
           (Return (),
            h\<lparr>objs := (objs h)(i := clean ((objs h i)(''fields'' \<mapsto> JStrs (fs @ [key])))),
              arrs := (arrs h)(a := arrs h a @ [i])\<rparr>)"
proof (cases opts)
  case None
  with assms(3) show ?thesis by (simp add: the_name_def)
next
  case (Some ob)
  then show ?thesis
    using assms by (simp add: Index_def is_null_def the_name_def Let_def)
qed

lemma clean_name_eq [simp]:
  "(clean ob ''name'' = Some (JStr n)) = (ob ''name'' = Some (JStr n))"
  by (simp add: clean_def)

lemma clean_fields_upd [simp]:
  "clean (ob(''fields'' \<mapsto> JStrs fs)) ''fields'' = Some (JStrs fs)"
  by (simp add: clean_def)

lemma clean_fields_upd_name [simp]:
  "(clean (ob(''fields'' \<mapsto> JStrs fs)) ''name'' = Some (JStr n)) = (ob ''name'' = Some (JStr n))"
  by (simp add: clean_def)

lemma opt_val_JStr_eq [simp]: "(opt_val JStr nm = JStr n) = (nm = Some n)"
  by (cases nm) (simp_all add: opt_val_def)

lemma new_index_name:
  "(clean [''name'' \<mapsto> opt_val JStr nm, ''unique'' \<mapsto> u, ''fields'' \<mapsto> JStrs [key]] ''name''
      = Some (JStr n)) = (nm = Some n)"
  by (cases nm) (simp_all add: clean_def opt_val_def)

lemma new_index_fields:
  "clean [''name'' \<mapsto> nm, ''unique'' \<mapsto> u, ''fields'' \<mapsto> JStrs [key]] ''fields''
      = Some (JStrs [key])"
  by (simp add: clean_def)

lemma has_name_the_name: "has_name n opts = (the_name opts = Some n)"
  by (simp add: has_name_def the_name_def split: option.splits)

lemma Index_step:
  assumes "index_inv t n ks h"
  shows "fst (Index opts t key h) = Return ()
       \<and> index_inv t n (if has_name n opts then ks @ [key] else ks) (snd (Index opts t key h))"
proof -
  from assms obtain m a where g: "getMeta t h = (Return m, h)"
    and ix: "options (entity_at h m) ''indexes'' = Some (JArr a)"
    and wf: "\<forall>r\<in>set (arrs h a). r < next_ref h \<and> (\<exists>fs. objs h r ''fields'' = Some (JStrs fs))"
    and nm: "if ks = [] then \<forall>r\<in>set (arrs h a). objs h r ''name'' \<noteq> Some (JStr n)
             else \<exists>i\<in>set (arrs h a).
                    (\<forall>r\<in>set (arrs h a). (objs h r ''name'' = Some (JStr n)) = (r = i))
                    \<and> objs h i ''fields'' = Some (JStrs ks)"
    unfolding index_inv_def by blast
  from g obtain c where ct: "ctor t = Some c" by (rule getMeta_ReturnD)
  define F where "F = (case the_name opts of None \<Rightarrow> None
          | Some n' \<Rightarrow> List.find (\<lambda>i. objs h i ''name'' = Some (JStr n')) (arrs h a))"
  show ?thesis
  proof (cases F)
    case None
    define j where "j = next_ref h"
    define h' where "h' = h\<lparr>objs := (objs h)(j :=
                   clean [''name'' \<mapsto> opt_val JStr (the_name opts),
                          ''unique'' \<mapsto> opt_val JBool (the_unique opts),
                          ''fields'' \<mapsto> JStrs [key]]),
              arrs := (arrs h)(a := arrs h a @ [j]),
              next_ref := Suc j\<rparr>"
    have res: "Index opts t key h = (Return (), h')"
      using Index_settled_new[OF g ix, of opts key] None by (simp add: F_def h'_def j_def)
    have g': "getMeta t h' = (Return m, h')"
      by (rule settled_cong[OF ct g]) (simp add: h'_def)
    have at: "entity_at h' m = entity_at h m" by (simp add: entity_at_def the_store_def h'_def)
    have ix': "options (entity_at h' m) ''indexes'' = Some (JArr a)" by (simp add: at ix)
    have arr': "arrs h' a = arrs h a @ [j]" by (simp add: h'_def)
    have fresh: "\<forall>r\<in>set (arrs h a). r \<noteq> j" using wf by (auto simp: j_def)
    have old: "\<forall>r\<in>set (arrs h a). objs h' r = objs h r" using fresh by (simp add: h'_def)
    have jname: "(objs h' j ''name'' = Some (JStr n)) = has_name n opts"
      by (simp add: h'_def new_index_name has_name_the_name)
    have jfields: "objs h' j ''fields'' = Some (JStrs [key])"
      by (simp add: h'_def new_index_fields)
    have wf': "\<forall>r\<in>set (arrs h' a). r < next_ref h' \<and> (\<exists>fs. objs h' r ''fields'' = Some (JStrs fs))"
      using wf old jfields by (auto simp: arr') (auto simp: h'_def j_def less_Suc_eq)
    have nm': "if (if has_name n opts then ks @ [key] else ks) = []
             then \<forall>r\<in>set (arrs h' a). objs h' r ''name'' \<noteq> Some (JStr n)
             else \<exists>i\<in>set (arrs h' a).
                    (\<forall>r\<in>set (arrs h' a). (objs h' r ''name'' = Some (JStr n)) = (r = i))
                    \<and> objs h' i ''fields'' = Some (JStrs (if has_name n opts then ks @ [key] else ks))"
    proof (cases "has_name n opts")
      case True
      then have "List.find (\<lambda>i. objs h i ''name'' = Some (JStr n)) (arrs h a) = None"
        using None by (simp add: F_def has_name_the_name)
      then have none: "\<forall>r\<in>set (arrs h a). objs h r ''name'' \<noteq> Some (JStr n)"
        by (simp add: find_None_iff)
      with nm have ks: "ks = []" by (auto split: if_splits)
      have "\<forall>r\<in>set (arrs h' a). (objs h' r ''name'' = Some (JStr n)) = (r = j)"
        using none old fresh jname True by (auto simp: arr')
      moreover have "j \<in> set (arrs h' a)" by (simp add: arr')
      ultimately show ?thesis using True jfields ks by auto
    next
      case False
      show ?thesis
      proof (cases "ks = []")
        case True
        with nm old jname False show ?thesis by (auto simp: arr')
      next
        case nonempty: False
        with nm obtain i where i: "i \<in> set (arrs h a)"
          and un: "\<forall>r\<in>set (arrs h a). (objs h r ''name'' = Some (JStr n)) = (r = i)"
          and fi: "objs h i ''fields'' = Some (JStrs ks)" by auto
        have "i \<noteq> j" using i fresh by auto
        then have "\<forall>r\<in>set (arrs h' a). (objs h' r ''name'' = Some (JStr n)) = (r = i)"
          using un old jname False by (auto simp: arr')
        moreover have "objs h' i ''fields'' = Some (JStrs ks)" using old i fi by simp
        moreover have "i \<in> set (arrs h' a)" using i by (simp add: arr')
        ultimately show ?thesis using False nonempty by auto
      qed
    qed
    have "index_inv t n (if has_name n opts then ks @ [key] else ks) h'"
      unfolding index_inv_def using g' ix' wf' nm' by blast
    with res show ?thesis by simp
  next
    case (Some j)
    then obtain n' where n': "the_name opts = Some n'"
      and fnd: "List.find (\<lambda>i. objs h i ''name'' = Some (JStr n')) (arrs h a) = Some j"
      by (auto simp: F_def split: option.splits)
    from fnd have jin: "j \<in> set (arrs h a)" and jn: "objs h j ''name'' = Some (JStr n')"
      by (auto simp: find_Some_iff)
    from wf jin obtain fs where fs: "objs h j ''fields'' = Some (JStrs fs)" by blast
    define h' where "h' = h\<lparr>objs := (objs h)(j := clean ((objs h j)(''fields'' \<mapsto> JStrs (fs @ [key])))),
              arrs := (arrs h)(a := arrs h a @ [j])\<rparr>"
    have res: "Index opts t key h = (Return (), h')"
      using Index_settled_found[OF g ix n' fnd fs, of key] by (simp add: h'_def)
    have g': "getMeta t h' = (Return m, h')"
      by (rule settled_cong[OF ct g]) (simp add: h'_def)
    have at: "entity_at h' m = entity_at h m" by (simp add: entity_at_def the_store_def h'_def)
    have ix': "options (entity_at h' m) ''indexes'' = Some (JArr a)" by (simp add: at ix)
    have arr': "set (arrs h' a) = set (arrs h a)" using jin by (auto simp: h'_def)
    have names: "\<And>r. (objs h' r ''name'' = Some (JStr n)) = (objs h r ''name'' = Some (JStr n))"
      by (simp add: h'_def)
    have other: "\<And>r. r \<noteq> j \<Longrightarrow> objs h' r = objs h r" by (simp add: h'_def)
    have jfields: "objs h' j ''fields'' = Some (JStrs (fs @ [key]))" by (simp add: h'_def)
    have wf': "\<forall>r\<in>set (arrs h' a). r < next_ref h' \<and> (\<exists>fs. objs h' r ''fields'' = Some (JStrs fs))"
    proof
      fix r assume r: "r \<in> set (arrs h' a)"
      then have "r \<in> set (arrs h a)" by (simp add: arr')
      with wf have "r < next_ref h" and "\<exists>fs. objs h r ''fields'' = Some (JStrs fs)" by auto
      then show "r < next_ref h' \<and> (\<exists>fs. objs h' r ''fields'' = Some (JStrs fs))"
        using jfields other[of r] by (cases "r = j") (auto simp: h'_def)
    qed
    have nm': "if (if has_name n opts then ks @ [key] else ks) = []
             then \<forall>r\<in>set (arrs h' a). objs h' r ''name'' \<noteq> Some (JStr n)
             else \<exists>i\<in>set (arrs h' a).
                    (\<forall>r\<in>set (arrs h' a). (objs h' r ''name'' = Some (JStr n)) = (r = i))
                    \<and> objs h' i ''fields'' = Some (JStrs (if has_name n opts then ks @ [key] else ks))"
    proof (cases "has_name n opts")
      case True
      then have nn: "n' = n" using n' by (simp add: has_name_the_name)
      from jin jn nn nm have nonempty: "ks \<noteq> []" by (auto split: if_splits)
      with nm obtain i where i: "i \<in> set (arrs h a)"
        and un: "\<forall>r\<in>set (arrs h a). (objs h r ''name'' = Some (JStr n)) = (r = i)"
        and fi: "objs h i ''fields'' = Some (JStrs ks)" by auto
      from un jin jn nn have ji: "j = i" by auto
      with fs fi have "fs = ks" by simp
      then have "objs h' i ''fields'' = Some (JStrs (ks @ [key]))" using jfields ji by simp
      moreover have "\<forall>r\<in>set (arrs h' a). (objs h' r ''name'' = Some (JStr n)) = (r = i)"
        using un by (simp add: arr' names)
      moreover have "i \<in> set (arrs h' a)" using i by (simp add: arr')
      ultimately show ?thesis using True by auto
    next
      case False
      then have nn: "n' \<noteq> n" using n' by (simp add: has_name_the_name)
      show ?thesis
      proof (cases "ks = []")
        case True
        with nm False show ?thesis by (simp add: arr' names)
      next
        case nonempty: False
        with nm obtain i where i: "i \<in> set (arrs h a)"
          and un: "\<forall>r\<in>set (arrs h a). (objs h r ''name'' = Some (JStr n)) = (r = i)"
          and fi: "objs h i ''fields'' = Some (JStrs ks)" by auto
        from un i have "objs h i ''name'' = Some (JStr n)" by auto
        with jn nn have "i \<noteq> j" by auto
        then have "objs h' i ''fields'' = Some (JStrs ks)" using fi other by simp
        moreover have "\<forall>r\<in>set (arrs h' a). (objs h' r ''name'' = Some (JStr n)) = (r = i)"
          using un by (simp add: arr' names)
        moreover have "i \<in> set (arrs h' a)" using i by (simp add: arr')
        ultimately show ?thesis using False nonempty by auto
      qed
    qed
    have "index_inv t n (if has_name n opts then ks @ [key] else ks) h'"
      unfolding index_inv_def using g' ix' wf' nm' by blast
    with res show ?thesis by simp
  qed
qed

lemma keys_named_Cons:
  "keys_named n ((opts, key) # ds) = (if has_name n opts then key # keys_named n ds else keys_named n ds)"
  by (simp add: keys_named_def)

lemma Index_all_inv:
  "index_inv t n ks h \<Longrightarrow>
     fst (Index_all ds t h) = Return ()
     \<and> index_inv t n (ks @ keys_named n ds) (snd (Index_all ds t h))"
proof (induction ds arbitrary: ks h)
  case Nil
  then show ?case by (simp add: keys_named_def)
next
  case (Cons d ds)
  obtain opts key where d: "d = (opts, key)" by (cases d)
  obtain h1 where r: "Index opts t key h = (Return (), h1)"
    and inv1: "index_inv t n (if has_name n opts then ks @ [key] else ks) h1"
    using Index_step[OF Cons.prems, of opts key] by (cases "Index opts t key h") auto
  from Cons.IH[OF inv1] show ?case
    by (cases "has_name n opts") (simp_all add: d r keys_named_Cons)
qed

lemma Index_prepare:
  assumes "getMeta t h = (Return m, h1)"
    and "is_null (options (entity_at h1 m) ''indexes'')"
  defines "h2 \<equiv> update_entity m
                    (\<lambda>e. e\<lparr>options := (options e)(''indexes'' \<mapsto> JArr (next_ref h1))\<rparr>)
                    (h1\<lparr>arrs := (arrs h1)(next_ref h1 := []), next_ref := Suc (next_ref h1)\<rparr>)"
  shows "Index opts t key h = Index opts t key h2" and "index_inv t n [] h2"
proof -
  let ?f = "\<lambda>e. e\<lparr>options := (options e)(''indexes'' \<mapsto> JArr (next_ref h1))\<rparr>"
  let ?h = "h1\<lparr>arrs := (arrs h1)(next_ref h1 := []), next_ref := Suc (next_ref h1)\<rparr>"
  from assms(1) obtain c where ct: "ctor t = Some c" and v: "valid_ref h1 m"
    and nm: "name (entity_at h1 m) = c" and g1: "getMeta t h1 = (Return m, h1)"
    by (rule getMeta_ReturnD)
  have gh: "getMeta t ?h = (Return m, ?h)" by (rule settled_cong[OF ct g1]) simp
  have vh: "valid_ref ?h m" using v by (simp add: valid_ref_def the_store_def)
  have ath: "entity_at ?h m = entity_at h1 m" by (simp add: entity_at_def the_store_def)
  have g2: "getMeta t h2 = (Return m, h2)"
    unfolding h2_def by (rule getMeta_update_entity[where f = ?f, OF ct gh vh]) (simp add: ath nm)
  have at2: "entity_at h2 m = ?f (entity_at h1 m)"
    unfolding h2_def by (simp add: entity_at_update_entity[OF vh] ath)
  have ix2: "options (entity_at h2 m) ''indexes'' = Some (JArr (next_ref h1))"
    by (simp add: at2)
  have nn: "\<not> is_null (options (entity_at h2 m) ''indexes'')"
    by (simp add: ix2 is_null_def)
  have lhs: "Index opts t key h = Index opts t key h2"
    by (simp add: Index_def[of opts t key h] Index_def[of opts t key h2] assms(1,2) g2 nn
        h2_def[symmetric])
  have "arrs h2 (next_ref h1) = []" by (simp add: h2_def)
  then have "index_inv t n [] h2"
    unfolding index_inv_def using g2 ix2 by auto
  with lhs show "Index opts t key h = Index opts t key h2" and "index_inv t n [] h2" by simp_all
qed

text \<open>
  C3. Take a class that has no \<^verbatim>\<open>indexes\<close> option yet and any sequence of \<^verbatim>\<open>Index\<close>
  decorations on it. The sequence does not throw, and afterwards every stored index named
  \<open>n\<close> has as \<^verbatim>\<open>fields\<close> exactly the properties decorated with that name, in the order of the
  decorations; there is such an index when at least one decoration has that name.
\<close>

theorem Index_fields_accumulate:
  assumes "ctor t = Some c"
    and "map_option (\<lambda>e. is_null (options e ''indexes'')) (read_meta t h) = Some True"
  shows "fst (Index_all ds t h) = Return ()
       \<and> (\<forall>ix\<in>set (stored_indexes t (snd (Index_all ds t h))).
            ix ''name'' = Some (JStr n) \<longrightarrow> ix ''fields'' = Some (JStrs (keys_named n ds)))
       \<and> (keys_named n ds \<noteq> [] \<longrightarrow>
            (\<exists>ix\<in>set (stored_indexes t (snd (Index_all ds t h))). ix ''name'' = Some (JStr n)))"
proof (cases ds)
  case Nil
  from assms(2) have "stored_indexes t h = []"
    by (auto simp: stored_indexes_def is_null_def split: option.splits jsval.splits)
  with Nil show ?thesis by (simp add: keys_named_def)
next
  case (Cons d ds')
  obtain opts key where d: "d = (opts, key)" by (cases d)
  obtain m h1 where g: "getMeta t h = (Return m, h1)" by (rule getMeta_result[OF assms(1)])
  with assms(2) have nul: "is_null (options (entity_at h1 m) ''indexes'')"
    by (simp add: read_meta_def)
  define h2 where "h2 = update_entity m
                    (\<lambda>e. e\<lparr>options := (options e)(''indexes'' \<mapsto> JArr (next_ref h1))\<rparr>)
                    (h1\<lparr>arrs := (arrs h1)(next_ref h1 := []), next_ref := Suc (next_ref h1)\<rparr>)"
  from Index_prepare[OF g nul] have eq: "Index opts t key h = Index opts t key h2"
    and inv: "index_inv t n [] h2" by (simp_all add: h2_def)
  have all: "Index_all ds t h = Index_all ds t h2" by (simp add: Cons d eq)
  from Index_all_inv[OF inv, of ds]
  have ok: "fst (Index_all ds t h) = Return ()"
    and inv': "index_inv t n (keys_named n ds) (snd (Index_all ds t h))"
    by (simp_all add: all)
  define h' where "h' = snd (Index_all ds t h)"
  from inv' obtain m' a where g': "getMeta t h' = (Return m', h')"
    and ix: "options (entity_at h' m') ''indexes'' = Some (JArr a)"
    and nm: "if keys_named n ds = [] then \<forall>r\<in>set (arrs h' a). objs h' r ''name'' \<noteq> Some (JStr n)
             else \<exists>i\<in>set (arrs h' a).
                    (\<forall>r\<in>set (arrs h' a). (objs h' r ''name'' = Some (JStr n)) = (r = i))
                    \<and> objs h' i ''fields'' = Some (JStrs (keys_named n ds))"
    unfolding index_inv_def h'_def by blast
  have si: "stored_indexes t h' = map (objs h') (arrs h' a)"
    by (simp add: stored_indexes_def read_meta_def g' ix)
  have "\<forall>ix\<in>set (stored_indexes t h').
            ix ''name'' = Some (JStr n) \<longrightarrow> ix ''fields'' = Some (JStrs (keys_named n ds))"
    using nm by (auto simp: si split: if_splits)
  moreover have "keys_named n ds \<noteq> [] \<longrightarrow>
            (\<exists>ix\<in>set (stored_indexes t h'). ix ''name'' = Some (JStr n))"
    using nm by (auto simp: si split: if_splits)
  ultimately show ?thesis using ok by (simp add: h'_def)
qed

lemma example_read_meta_User:
  "read_meta (prototype example_User) example_heap = Some (new_entity ''User'')"
  by (simp add: read_meta_def example_getMeta_User entity_at_def the_store_def)

theorem Index_fields_accumulate_witness:
  "ctor (prototype example_User) = Some ''User''
   \<and> map_option (\<lambda>e. is_null (options e ''indexes''))
        (read_meta (prototype example_User) example_heap) = Some True
   \<and> keys_named ''name_age''
        [(Some \<lparr>opt_name = Some ''name_age'', opt_unique = Some True\<rparr>, ''name''),
         (None, ''email''),
         (Some \<lparr>opt_name = Some ''name_age'', opt_unique = None\<rparr>, ''age'')] = [''name'', ''age'']
   \<and> fst (Index_all
        [(Some \<lparr>opt_name = Some ''name_age'', opt_unique = Some True\<rparr>, ''name''),
         (None, ''email''),
         (Some \<lparr>opt_name = Some ''name_age'', opt_unique = None\<rparr>, ''age'')]
        (prototype example_User) example_heap) = Return ()
   \<and> list_all (\<lambda>ix. ix ''fields'' = Some (JStrs [''name'', ''age'']))
        (filter (\<lambda>ix. ix ''name'' = Some (JStr ''name_age''))
           (stored_indexes (prototype example_User)
              (snd (Index_all
                 [(Some \<lparr>opt_name = Some ''name_age'', opt_unique = Some True\<rparr>, ''name''),
                  (None, ''email''),
                  (Some \<lparr>opt_name = Some ''name_age'', opt_unique = None\<rparr>, ''age'')]
                 (prototype example_User) example_heap))))
   \<and> list_ex (\<lambda>ix. ix ''name'' = Some (JStr ''name_age''))
        (stored_indexes (prototype example_User)
           (snd (Index_all
              [(Some \<lparr>opt_name = Some ''name_age'', opt_unique = Some True\<rparr>, ''name''),
               (None, ''email''),
               (Some \<lparr>opt_name = Some ''name_age'', opt_unique = None\<rparr>, ''age'')]
              (prototype example_User) example_heap)))"
proof -
  have c: "ctor (prototype example_User) = Some ''User''" by (simp add: example_User_def)
  have n: "map_option (\<lambda>e. is_null (options e ''indexes''))
        (read_meta (prototype example_User) example_heap) = Some True"
    by (simp add: example_read_meta_User new_entity_def is_null_def)
  have k: "keys_named ''name_age''
        [(Some \<lparr>opt_name = Some ''name_age'', opt_unique = Some True\<rparr>, ''name''),
         (None, ''email''),
         (Some \<lparr>opt_name = Some ''name_age'', opt_unique = None\<rparr>, ''age'')] = [''name'', ''age'']"
    by (simp add: keys_named_def has_name_def)
  show ?thesis
    using Index_fields_accumulate[OF c n,
        of "[(Some \<lparr>opt_name = Some ''name_age'', opt_unique = Some True\<rparr>, ''name''),
             (None, ''email''),
             (Some \<lparr>opt_name = Some ''name_age'', opt_unique = None\<rparr>, ''age'')]" "''name_age''"]
    unfolding k using c n by (simp add: list_all_iff list_ex_iff)
qed

subsection \<open>registerEntities: the order of the engine calls\<close>

lemma Object_create_ctor: "ctor (fst (Object_create p h)) = ctor p"
  by (simp add: Object_create_def)

lemma define_entities_calls:
  "\<exists>ds. calls (fst (snd (define_entities cs s h))) = calls s @ ds
        \<and> list_all is_define ds
        \<and> (case fst (define_entities cs s h) of
             Return u \<Rightarrow> map defined_name ds = map (\<lambda>c. ctor (prototype c)) cs
           | Throw e \<Rightarrow> True)"
proof (induction cs arbitrary: s h)
  case Nil
  then show ?case by simp
next
  case (Cons c cs)
  obtain e h0 where oc: "Object_create (prototype c) h = (e, h0)"
    by (cases "Object_create (prototype c) h")
  then have ce: "ctor e = ctor (prototype c)" using Object_create_ctor[of "prototype c" h] by simp
  obtain r h1 where g: "getMeta e h0 = (r, h1)" by (cases "getMeta e h0")
  show ?case
  proof (cases r)
    case (Throw err)
    then show ?thesis by (simp add: oc g)
  next
    case (Return m)
    with g obtain n where n: "ctor e = Some n" and nm: "name (entity_at h1 m) = n"
      by (auto elim: getMeta_ReturnD)
    define s1 where "s1 = sequelize_define (name (entity_at h1 m)) (entity_fields (entity_at h1 m))
                             (options (entity_at h1 m)) s"
    have c1: "calls s1 = calls s @ [Define_call n]" by (simp add: s1_def sequelize_define_def nm)
    from Cons.IH[of s1 h1] obtain ds where
      ds: "calls (fst (snd (define_entities cs s1 h1))) = calls s1 @ ds"
      "list_all is_define ds"
      "case fst (define_entities cs s1 h1) of
             Return u \<Rightarrow> map defined_name ds = map (\<lambda>c. ctor (prototype c)) cs
           | Throw e \<Rightarrow> True" by blast
    have eq: "define_entities (c # cs) s h = define_entities cs s1 h1"
      by (simp add: oc g Return s1_def Let_def)
    have idn: "is_define (Define_call n)" by (simp add: is_define_def)
    show ?thesis
      unfolding eq
      using ds c1 n ce idn
      by (intro exI[of _ "Define_call n # ds"]) (auto split: outcome.splits)
  qed
qed

lemma associate_calls:
  "\<exists>as. calls (snd (associate eng ename meta ks model s h)) = calls s @ as
        \<and> list_all (\<lambda>c. \<not> is_define c) as"
proof (induction ks arbitrary: model s)
  case Nil
  then show ?case by simp
next
  case (Cons k ks)
  show ?case
  proof (cases "map_of (associations meta) k")
    case None
    then show ?thesis by simp
  next
    case (Some ea)
    define s1 where "s1 = s\<lparr>calls := calls s @
                     [Association_call ename (assoc_method ea) (target ea) k]\<rparr>"
    show ?thesis
    proof (cases "eng model (assoc_method ea) (models s (target ea)) (objs h (association ea))")
      case (Throw err)
      then show ?thesis using Some by (simp add: Let_def is_define_def)
    next
      case (Return acc)
      define model1 where "model1 = model\<lparr>props := (props model)(k \<mapsto> acc)\<rparr>"
      define s2 where "s2 = s1\<lparr>models := (models s1)(ename \<mapsto> model1)\<rparr>"
      have eq: "associate eng ename meta (k # ks) model s h = associate eng ename meta ks model1 s2 h"
        using Some Return by (simp add: Let_def s1_def s2_def model1_def)
      from Cons.IH[of model1 s2] obtain as where
        "calls (snd (associate eng ename meta ks model1 s2 h)) = calls s2 @ as"
        "list_all (\<lambda>c. \<not> is_define c) as" by blast
      then show ?thesis
        unfolding eq
        by (intro exI[of _ "Association_call ename (assoc_method ea) (target ea) k # as"])
          (simp add: s2_def s1_def is_define_def)
    qed
  qed
qed

lemma associate_entities_calls:
  "\<exists>as. calls (fst (snd (associate_entities eng cs s h))) = calls s @ as
        \<and> list_all (\<lambda>c. \<not> is_define c) as"
proof (induction cs arbitrary: s h)
  case Nil
  then show ?case by simp
next
  case (Cons c cs)
  obtain e h0 where oc: "Object_create (prototype c) h = (e, h0)"
    by (cases "Object_create (prototype c) h")
  obtain r h1 where g: "getMeta e h0 = (r, h1)" by (cases "getMeta e h0")
  show ?case
  proof (cases r)
    case (Throw err)
    then show ?thesis by (simp add: oc g)
  next
    case (Return m)
    show ?thesis
    proof (cases "models s (fname c)")
      case None
      then show ?thesis using Cons.IH[of s h1] by (simp add: oc g Return)
    next
      case (Some model)
      obtain r2 s1 where a: "associate eng (fname c) (entity_at h1 m)
                               (Object_keys (associations (entity_at h1 m))) model s h1 = (r2, s1)"
        by (cases "associate eng (fname c) (entity_at h1 m)
                               (Object_keys (associations (entity_at h1 m))) model s h1")
      from associate_calls[of eng "fname c" "entity_at h1 m"
          "Object_keys (associations (entity_at h1 m))" model s h1] a
      obtain as1 where as1: "calls s1 = calls s @ as1" "list_all (\<lambda>c. \<not> is_define c) as1"
        by auto
      show ?thesis
      proof (cases r2)
        case (Throw err)
        then show ?thesis using as1 by (simp add: oc g Return Some a)
      next
        case Return2: (Return u)
        from Cons.IH[of s1 h1] obtain as2 where
          "calls (fst (snd (associate_entities eng cs s1 h1))) = calls s1 @ as2"
          "list_all (\<lambda>c. \<not> is_define c) as2" by blast
        then show ?thesis
          using as1 by (intro exI[of _ "as1 @ as2"]) (simp add: oc g Return Some a Return2)
      qed
    qed
  qed
qed

text \<open>
  C4. Whatever the outcome of \<^verbatim>\<open>registerEntities\<close>, the calls it makes to the engine are a
  run of model definitions followed by a run of association calls; and when there is an
  association call at all, the definitions are those of all the entities of the list, one
  each and in order, under the names of their constructors.
\<close>

theorem definitions_before_associations:
  "\<exists>ds as. calls (fst (snd (registerEntities eng s cs h))) = calls s @ ds @ as
        \<and> list_all is_define ds
        \<and> list_all (\<lambda>c. \<not> is_define c) as
        \<and> (as = [] \<or> map defined_name ds = map (\<lambda>c. ctor (prototype c)) cs)"
proof -
  obtain r1 s1 h1 where d: "define_entities cs s h = (r1, s1, h1)"
    by (cases "define_entities cs s h")
  from define_entities_calls[of cs s h] d obtain ds where
    ds: "calls s1 = calls s @ ds" "list_all is_define ds"
    "case r1 of Return u \<Rightarrow> map defined_name ds = map (\<lambda>c. ctor (prototype c)) cs
     | Throw e \<Rightarrow> True" by auto
  show ?thesis
  proof (cases r1)
    case (Throw err)
    then show ?thesis using ds d
      by (intro exI[of _ ds] exI[of _ "[]"]) (simp add: registerEntities_def)
  next
    case (Return u)
    obtain r2 s2 h2 where a: "associate_entities eng cs s1 h1 = (r2, s2, h2)"
      by (cases "associate_entities eng cs s1 h1")
    from associate_entities_calls[of eng cs s1 h1] a obtain as where
      as: "calls s2 = calls s1 @ as" "list_all (\<lambda>c. \<not> is_define c) as" by auto
    have "calls (fst (snd (registerEntities eng s cs h))) = calls s2"
      by (cases r2) (simp_all add: registerEntities_def d Return a)
    then show ?thesis using ds as Return
      by (intro exI[of _ ds] exI[of _ as]) simp
  qed
qed

subsection \<open>registerEntities: what it reads from the heap\<close>

lemma read_meta_eq:
  assumes "ctor t = Some n"
  shows "read_meta t h =
           Some (case List.find (\<lambda>e. name e = n) (the_store h (meta_owner h t)) of
                   Some e \<Rightarrow> e
                 | None \<Rightarrow> new_entity n)"
proof (cases "first_index (\<lambda>e. name e = n) (the_store h (meta_owner h t))")
  case None
  then show ?thesis
    by (simp add: read_meta_def getMeta_new[OF assms None] find_first_index entity_at_def
        the_store_def)
next
  case (Some i)
  then show ?thesis
    by (simp add: read_meta_def getMeta_found[OF assms Some] find_first_index entity_at_def)
qed

lemma find_cong_set: "(\<And>x. x \<in> set xs \<Longrightarrow> P x = Q x) \<Longrightarrow> List.find P xs = List.find Q xs"
  by (induction xs) auto

lemma find_append_cases:
  "List.find P (xs @ ys) = (case List.find P xs of None \<Rightarrow> List.find P ys | Some x \<Rightarrow> Some x)"
  by (induction xs) auto

lemma ext_refl: "ext h h"
  by (auto simp: ext_def split: option.splits)

lemma ext_trans:
  assumes "ext h1 h2" and "ext h2 h3"
  shows "ext h1 h3"
proof -
  have "\<forall>x<next_ref h1.
            case stores h1 x of
              None \<Rightarrow> stores h3 x = None
            | Some es \<Rightarrow> (\<exists>es'. stores h3 x = Some (es @ es')
                                \<and> (\<forall>e\<in>set es'. e = new_entity (name e)))"
  proof (intro allI impI)
    fix x assume x: "x < next_ref h1"
    with assms(1) have x2: "x < next_ref h2" by (simp add: ext_def)
    show "case stores h1 x of
              None \<Rightarrow> stores h3 x = None
            | Some es \<Rightarrow> (\<exists>es'. stores h3 x = Some (es @ es')
                                \<and> (\<forall>e\<in>set es'. e = new_entity (name e)))"
    proof (cases "stores h1 x")
      case None
      with assms(1) x have "stores h2 x = None" by (force simp: ext_def)
      with assms(2) x2 have "stores h3 x = None" by (force simp: ext_def)
      with None show ?thesis by simp
    next
      case (Some es)
      with assms(1) x obtain es1 where 1: "stores h2 x = Some (es @ es1)"
        "\<forall>e\<in>set es1. e = new_entity (name e)" by (force simp: ext_def)
      with assms(2) x2 obtain es2 where 2: "stores h3 x = Some ((es @ es1) @ es2)"
        "\<forall>e\<in>set es2. e = new_entity (name e)" by (force simp: ext_def)
      have "stores h3 x = Some (es @ (es1 @ es2))" using 2 by simp
      moreover have "\<forall>e\<in>set (es1 @ es2). e = new_entity (name e)" using 1 2 by auto
      ultimately show ?thesis using Some by auto
    qed
  qed
  with assms show ?thesis by (simp add: ext_def)
qed

lemma ext_allocated: "ext h h' \<Longrightarrow> allocated h t \<Longrightarrow> allocated h' t"
  by (auto simp: ext_def allocated_def list_all_iff)

lemma ext_read_meta:
  assumes "ext h h'" and "allocated h t"
  shows "read_meta t h' = read_meta t h"
proof (cases "ctor t")
  case None
  then show ?thesis by (simp add: read_meta_def getMeta_Throw)
next
  case (Some n)
  have chain: "x < next_ref h" if "x \<in> set (self t # ancestors t)" for x
    using assms(2) that by (auto simp: allocated_def list_all_iff)
  have same: "\<And>x. x \<in> set (self t # ancestors t) \<Longrightarrow> (stores h' x \<noteq> None) = (stores h x \<noteq> None)"
  proof -
    fix x assume "x \<in> set (self t # ancestors t)"
    then have "x < next_ref h" by (rule chain)
    with assms(1) show "(stores h' x \<noteq> None) = (stores h x \<noteq> None)"
      by (cases "stores h x") (force simp: ext_def)+
  qed
  have so: "store_owner h' t = store_owner h t"
    unfolding store_owner_def by (rule find_cong_set) (rule same)
  then have mo: "meta_owner h' t = meta_owner h t" by (simp add: meta_owner_def)
  let ?P = "\<lambda>e. name e = n"
  have "(case List.find ?P (the_store h' (meta_owner h t)) of Some e \<Rightarrow> e | None \<Rightarrow> new_entity n)
      = (case List.find ?P (the_store h (meta_owner h t)) of Some e \<Rightarrow> e | None \<Rightarrow> new_entity n)"
  proof (cases "store_owner h t")
    case None
    then have "stores h (self t) = None" by (rule store_owner_None_self)
    moreover from this same[of "self t"] have "stores h' (self t) = None" by simp
    ultimately show ?thesis using None by (simp add: meta_owner_def the_store_def)
  next
    case (Some y)
    then have yin: "y \<in> set (self t # ancestors t)"
      by (auto simp: store_owner_def find_Some_iff in_set_conv_nth split: if_splits)
    from Some obtain es where es: "stores h y = Some es"
      using store_owner_Some_stores by blast
    from chain[OF yin] assms(1) es obtain es' where es': "stores h' y = Some (es @ es')"
      "\<forall>e\<in>set es'. e = new_entity (name e)" by (force simp: ext_def)
    have fresh: "\<And>e. List.find ?P es' = Some e \<Longrightarrow> e = new_entity n"
    proof -
      fix e assume "List.find ?P es' = Some e"
      then have "e \<in> set es'" "name e = n" by (auto simp: find_Some_iff in_set_conv_nth)
      with es'(2) show "e = new_entity n" by auto
    qed
    show ?thesis
      using fresh
      by (auto simp: meta_owner_def Some the_store_def es es' find_append_cases
          split: option.splits)
  qed
  then show ?thesis by (simp add: read_meta_eq[OF Some] mo)
qed

lemma getMeta_stores_cases:
  assumes "getMeta t h = (Return m, h1)"
  obtains "stores h1 = stores h"
  | n es where "ctor t = Some n" and "the_store h (meta_owner h t) = es"
      and "stores h1 = (stores h)(meta_owner h t \<mapsto> es @ [new_entity n])"
proof -
  from assms obtain n where n: "ctor t = Some n" by (rule getMeta_ReturnD)
  from getMeta_stores[OF n, of h] assms show ?thesis
    by (cases "list_ex (\<lambda>e. name e = n) (the_store h (meta_owner h t))")
      (auto intro: that n)
qed

lemma Object_create_read_meta:
  assumes "allocated h p" and "Object_create p h = (e, h0)"
  shows "read_meta e h0 = read_meta p h"
    and "meta_owner h0 e = (case store_owner h p of None \<Rightarrow> next_ref h | Some y \<Rightarrow> y)"
    and "the_store h0 (meta_owner h0 e) = the_store h (meta_owner h p)"
proof -
  from assms(2) have e: "e = \<lparr>self = next_ref h, ancestors = self p # ancestors p, ctor = ctor p\<rparr>"
    and h0: "h0 = h\<lparr>stores := (stores h)(next_ref h := None), next_ref := Suc (next_ref h)\<rparr>"
    by (auto simp: Object_create_def)
  have chain: "x \<noteq> next_ref h" if "x \<in> set (self p # ancestors p)" for x
    using assms(1) that by (auto simp: allocated_def list_all_iff)
  have "List.find (\<lambda>x. stores h0 x \<noteq> None) (self p # ancestors p)
      = List.find (\<lambda>x. stores h x \<noteq> None) (self p # ancestors p)"
    by (rule find_cong_set) (use chain in \<open>auto simp: h0\<close>)
  then have so: "store_owner h0 e = store_owner h p"
    by (simp add: store_owner_def e) (simp add: h0)
  have se: "self e = next_ref h" by (simp add: e)
  show mo: "meta_owner h0 e = (case store_owner h p of None \<Rightarrow> next_ref h | Some y \<Rightarrow> y)"
    by (simp add: meta_owner_def so se split: option.splits)
  show st: "the_store h0 (meta_owner h0 e) = the_store h (meta_owner h p)"
  proof (cases "store_owner h p")
    case None
    then have "stores h (self p) = None" by (rule store_owner_None_self)
    then show ?thesis unfolding mo using None by (simp add: meta_owner_def the_store_def h0)
  next
    case (Some y)
    then have "y \<in> set (self p # ancestors p)"
      by (auto simp: store_owner_def find_Some_iff in_set_conv_nth split: if_splits)
    from chain[OF this] show ?thesis unfolding mo using Some
      by (simp add: meta_owner_def the_store_def h0)
  qed
  show "read_meta e h0 = read_meta p h"
  proof (cases "ctor p")
    case None
    then show ?thesis by (simp add: read_meta_def getMeta_Throw e)
  next
    case (Some n)
    then have "ctor e = Some n" by (simp add: e)
    from read_meta_eq[OF this, of h0] read_meta_eq[OF Some, of h] st show ?thesis by simp
  qed
qed

lemma ext_step:
  assumes "allocated h p" and "Object_create p h = (e, h0)" and "getMeta e h0 = (r, h1)"
  shows "ext h h1"
    and "case r of Throw err \<Rightarrow> ctor p = None | Return m \<Rightarrow> read_meta p h = Some (entity_at h1 m)"
proof -
  from assms(2) have e: "e = \<lparr>self = next_ref h, ancestors = self p # ancestors p, ctor = ctor p\<rparr>"
    and h0: "h0 = h\<lparr>stores := (stores h)(next_ref h := None), next_ref := Suc (next_ref h)\<rparr>"
    by (auto simp: Object_create_def)
  have ext0: "ext h h0"
    by (auto simp: ext_def h0 split: option.splits)
  note oc = Object_create_read_meta[OF assms(1,2)]
  show "case r of Throw err \<Rightarrow> ctor p = None | Return m \<Rightarrow> read_meta p h = Some (entity_at h1 m)"
  proof (cases r)
    case (Throw err)
    then have "ctor e = None" using assms(3) getMeta_result[of e _ h0]
      by (cases "ctor e") auto
    then show ?thesis using Throw by (simp add: e)
  next
    case (Return m)
    then show ?thesis using assms(3) oc(1) by (simp add: read_meta_def)
  qed
  show "ext h h1"
  proof (cases r)
    case (Throw err)
    then have "ctor e = None" using assms(3) getMeta_result[of e _ h0]
      by (cases "ctor e") auto
    then have "h1 = h0" using assms(3) by (simp add: getMeta_Throw)
    with ext0 show ?thesis by simp
  next
    case (Return m)
    with assms(3) have g: "getMeta e h0 = (Return m, h1)" by simp
    from g have fr: "objs h1 = objs h0" "arrs h1 = arrs h0" "next_ref h1 = next_ref h0"
      by (auto elim: getMeta_ReturnD)
    from g show ?thesis
    proof (cases rule: getMeta_stores_cases)
      case 1
      then have "ext h0 h1" using fr by (auto simp: ext_def split: option.splits)
      with ext0 show ?thesis by (rule ext_trans)
    next
      case (2 n es)
      show ?thesis
      proof (cases "store_owner h p")
        case None
        then have "meta_owner h0 e = next_ref h" by (simp add: oc(2))
        then show ?thesis using 2 ext0 fr by (auto simp: ext_def split: option.splits)
      next
        case (Some y)
        then have mo: "meta_owner h0 e = y" by (simp add: oc(2))
        from Some obtain ys where ys: "stores h y = Some ys"
          using store_owner_Some_stores by blast
        have es: "es = ys" using 2(2) oc(3) Some ys by (simp add: mo meta_owner_def the_store_def)
        have st1: "stores h1 = (stores h0)(y \<mapsto> es @ [new_entity n])"
          using 2(3) by (simp add: mo)
        have "\<forall>x<next_ref h.
            case stores h x of
              None \<Rightarrow> stores h1 x = None
            | Some xs \<Rightarrow> (\<exists>es'. stores h1 x = Some (xs @ es')
                                \<and> (\<forall>e\<in>set es'. e = new_entity (name e)))"
        proof (intro allI impI)
          fix x assume x: "x < next_ref h"
          show "case stores h x of
              None \<Rightarrow> stores h1 x = None
            | Some xs \<Rightarrow> (\<exists>es'. stores h1 x = Some (xs @ es')
                                \<and> (\<forall>e\<in>set es'. e = new_entity (name e)))"
          proof (cases "x = y")
            case True
            have "stores h1 y = Some (ys @ [new_entity n])" using 2(3) by (simp add: mo es)
            moreover have "\<forall>e\<in>set [new_entity n]. e = new_entity (name e)"
              by (simp add: new_entity_def)
            ultimately show ?thesis using True ys by (auto simp del: set_simps)
          next
            case False
            then have "stores h1 x = stores h x" using st1 x by (simp add: h0)
            then show ?thesis by (auto split: option.splits)
          qed
        qed
        then show ?thesis using fr by (simp add: ext_def h0)
      qed
    qed
  qed
qed

lemma associate_objs_cong:
  "objs h' = objs h \<Longrightarrow>
     associate eng n e ks model s h' = associate eng n e ks model s h"
  by (induction ks arbitrary: model s) (auto simp: Let_def split: option.splits outcome.splits)

lemma associate_records_objs_cong:
  "objs h' = objs h \<Longrightarrow> associate_records eng rs s h' = associate_records eng rs s h"
proof (induction rs arbitrary: s)
  case Nil
  then show ?case by simp
next
  case (Cons r rs)
  obtain n e where r: "r = (n, e)" by (cases r)
  show ?case
    using Cons
    by (simp add: r associate_objs_cong[OF Cons.prems]
        split: option.splits prod.splits outcome.splits)
qed

lemma records_ext:
  assumes "ext h h'" and "list_all (\<lambda>c. allocated h (prototype c)) cs"
  shows "records h' cs = records h cs"
  using assms by (auto simp: records_def list_all_iff ext_read_meta)

lemma define_entities_records:
  assumes "list_all (\<lambda>c. allocated h (prototype c) \<and> ctor (prototype c) \<noteq> None) cs"
  shows "\<exists>h'. define_entities cs s h = (Return (), define_records (records h cs) s, h')
             \<and> ext h h'"
  using assms
proof (induction cs arbitrary: s h)
  case Nil
  then show ?case by (simp add: records_def ext_refl)
next
  case (Cons c cs)
  from Cons.prems have al: "allocated h (prototype c)" and ct: "ctor (prototype c) \<noteq> None"
    and rest: "list_all (\<lambda>c. allocated h (prototype c) \<and> ctor (prototype c) \<noteq> None) cs"
    by simp_all
  obtain e h0 where oc: "Object_create (prototype c) h = (e, h0)"
    by (cases "Object_create (prototype c) h")
  obtain r h1 where g: "getMeta e h0 = (r, h1)" by (cases "getMeta e h0")
  from ext_step[OF al oc g] ct obtain m where r: "r = Return m"
    and rm: "read_meta (prototype c) h = Some (entity_at h1 m)" and ext1: "ext h h1"
    by (cases r) auto
  have rest1: "list_all (\<lambda>c. allocated h1 (prototype c) \<and> ctor (prototype c) \<noteq> None) cs"
    using rest ext_allocated[OF ext1] by (auto simp: list_all_iff)
  have recs: "records h1 cs = records h cs"
    by (rule records_ext[OF ext1]) (use rest in \<open>auto simp: list_all_iff\<close>)
  define s1 where "s1 = sequelize_define (name (entity_at h1 m)) (entity_fields (entity_at h1 m))
                             (options (entity_at h1 m)) s"
  from Cons.IH[OF rest1, of s1] obtain h' where
    ih: "define_entities cs s1 h1 = (Return (), define_records (records h1 cs) s1, h')"
    and ext2: "ext h1 h'" by blast
  have "define_entities (c # cs) s h = define_entities cs s1 h1"
    by (simp add: oc g r s1_def Let_def)
  moreover have "define_records (records h (c # cs)) s = define_records (records h cs) s1"
    by (simp add: records_def rm s1_def)
  ultimately show ?case using ih ext_trans[OF ext1 ext2] by (simp add: recs)
qed

lemma associate_entities_records:
  assumes "list_all (\<lambda>c. allocated h (prototype c) \<and> ctor (prototype c) \<noteq> None) cs"
  shows "\<exists>h'. associate_entities eng cs s h =
               (fst (associate_records eng (records h cs) s h),
                snd (associate_records eng (records h cs) s h), h')
             \<and> ext h h'"
  using assms
proof (induction cs arbitrary: s h)
  case Nil
  then show ?case by (simp add: records_def ext_refl)
next
  case (Cons c cs)
  from Cons.prems have al: "allocated h (prototype c)" and ct: "ctor (prototype c) \<noteq> None"
    and rest: "list_all (\<lambda>c. allocated h (prototype c) \<and> ctor (prototype c) \<noteq> None) cs"
    by simp_all
  obtain e h0 where oc: "Object_create (prototype c) h = (e, h0)"
    by (cases "Object_create (prototype c) h")
  obtain r h1 where g: "getMeta e h0 = (r, h1)" by (cases "getMeta e h0")
  from ext_step[OF al oc g] ct obtain m where r: "r = Return m"
    and rm: "read_meta (prototype c) h = Some (entity_at h1 m)" and ext1: "ext h h1"
    by (cases r) auto
  have ob: "objs h1 = objs h" using ext1 by (simp add: ext_def)
  have rest1: "list_all (\<lambda>c. allocated h1 (prototype c) \<and> ctor (prototype c) \<noteq> None) cs"
    using rest ext_allocated[OF ext1] by (auto simp: list_all_iff)
  have recs: "records h1 cs = records h cs"
    by (rule records_ext[OF ext1]) (use rest in \<open>auto simp: list_all_iff\<close>)
  have rc: "records h (c # cs) = (fname c, entity_at h1 m) # records h cs"
    by (simp add: records_def rm)
  define meta where "meta = entity_at h1 m"
  show ?case
  proof (cases "models s (fname c)")
    case None
    from Cons.IH[OF rest1, of s] obtain h' where
      ih: "associate_entities eng cs s h1 =
               (fst (associate_records eng (records h1 cs) s h1),
                snd (associate_records eng (records h1 cs) s h1), h')"
      and ext2: "ext h1 h'" by blast
    have "associate_entities eng (c # cs) s h = associate_entities eng cs s h1"
      by (simp add: oc g r None)
    then show ?thesis
      using ih ext_trans[OF ext1 ext2]
      by (simp add: rc None recs associate_records_objs_cong[OF ob])
  next
    case (Some model)
    obtain r2 s1 where a: "associate eng (fname c) meta (Object_keys (associations meta)) model s h1
                           = (r2, s1)"
      by (cases "associate eng (fname c) meta (Object_keys (associations meta)) model s h1")
    then have a': "associate eng (fname c) meta (Object_keys (associations meta)) model s h
                           = (r2, s1)"
      by (simp add: associate_objs_cong[OF ob])
    show ?thesis
    proof (cases r2)
      case (Throw err)
      have "associate_entities eng (c # cs) s h = (Throw err, s1, h1)"
        using a by (simp add: oc g r Some Throw meta_def)
      then show ?thesis using a' ext1 by (simp add: rc Some Throw meta_def[symmetric])
    next
      case (Return u)
      from Cons.IH[OF rest1, of s1] obtain h' where
        ih: "associate_entities eng cs s1 h1 =
               (fst (associate_records eng (records h1 cs) s1 h1),
                snd (associate_records eng (records h1 cs) s1 h1), h')"
        and ext2: "ext h1 h'" by blast
      have "associate_entities eng (c # cs) s h = associate_entities eng cs s1 h1"
        using a by (simp add: oc g r Some Return meta_def)
      then show ?thesis
        using ih a' ext_trans[OF ext1 ext2]
        by (simp add: rc Some Return recs associate_records_objs_cong[OF ob] meta_def[symmetric])
    qed
  qed
qed

lemma registerEntities_records:
  assumes "list_all (\<lambda>c. allocated h (prototype c) \<and> ctor (prototype c) \<noteq> None) cs"
  shows "\<exists>h'. registerEntities eng s cs h =
           (case associate_records eng (records h cs) (define_records (records h cs) s) h of
              (Throw err, s2) \<Rightarrow> (Throw err, s2, h')
            | (Return u, s2) \<Rightarrow> (Return (models s2), s2, h'))"
proof -
  from define_entities_records[OF assms, of s] obtain h1 where
    d: "define_entities cs s h = (Return (), define_records (records h cs) s, h1)"
    and ext1: "ext h h1" by blast
  have al1: "list_all (\<lambda>c. allocated h1 (prototype c) \<and> ctor (prototype c) \<noteq> None) cs"
    using assms ext_allocated[OF ext1] by (auto simp: list_all_iff)
  have recs: "records h1 cs = records h cs"
    by (rule records_ext[OF ext1]) (use assms in \<open>auto simp: list_all_iff\<close>)
  have ob: "objs h1 = objs h" using ext1 by (simp add: ext_def)
  define s1 where "s1 = define_records (records h cs) s"
  from associate_entities_records[OF al1, of eng s1] obtain h2 where
    a: "associate_entities eng cs s1 h1 =
               (fst (associate_records eng (records h cs) s1 h),
                snd (associate_records eng (records h cs) s1 h), h2)"
    by (auto simp: recs associate_records_objs_cong[OF ob])
  show ?thesis
    by (rule exI[of _ h2])
      (simp add: registerEntities_def d s1_def[symmetric] a split: prod.splits outcome.splits)
qed

subsection \<open>registerEntities: the models it returns\<close>

lemma stored_meta_read_meta: "stored_meta h t = Some e \<Longrightarrow> read_meta t h = Some e"
  by (cases "ctor t") (simp_all add: stored_meta_def read_meta_eq)

lemma stored_meta_None_read_meta:
  "ctor t = Some n \<Longrightarrow> stored_meta h t = None \<Longrightarrow> read_meta t h = Some (new_entity n)"
  by (simp add: stored_meta_def read_meta_eq)

lemma read_meta_name:
  assumes "read_meta t h = Some e"
  shows "ctor t = Some (name e)"
proof (cases "ctor t")
  case None
  with assms show ?thesis by (simp add: read_meta_def getMeta_Throw)
next
  case (Some n)
  obtain m h1 where "getMeta t h = (Return m, h1)" "name (entity_at h1 m) = n"
    by (rule getMeta_result[OF Some])
  with assms Some show ?thesis by (simp add: read_meta_def)
qed

lemma set_Object_keys: "set (Object_keys al) = fst ` set al"
  by (auto simp: Object_keys_def)

lemma Object_keys_Nil [simp]: "Object_keys [] = []"
  by (simp add: Object_keys_def)

lemma define_records_models_notin:
  "x \<notin> (name \<circ> snd) ` set rs \<Longrightarrow> models (define_records rs s) x = models s x"
  by (induction rs arbitrary: s) (auto simp: sequelize_define_def)

lemma define_records_models_in:
  "distinct (map (name \<circ> snd) rs) \<Longrightarrow> (n, e) \<in> set rs \<Longrightarrow>
     models (define_records rs s) (name e) = Some (model_of e)"
proof (induction rs arbitrary: s)
  case Nil
  then show ?case by simp
next
  case (Cons r rs)
  obtain n' e' where r: "r = (n', e')" by (cases r)
  show ?case
  proof (cases "(n, e) \<in> set rs")
    case True
    with Cons show ?thesis by (simp add: r)
  next
    case False
    with Cons.prems have eq: "(n, e) = (n', e')" by (simp add: r)
    from Cons.prems(1) have "name e' \<notin> (name \<circ> snd) ` set rs" by (simp add: r)
    from define_records_models_notin[OF this] eq show ?thesis
      by (simp add: r sequelize_define_def model_of_def)
  qed
qed

lemma define_records_dom:
  "dom (models (define_records rs s)) = dom (models s) \<union> (name \<circ> snd) ` set rs"
proof (induction rs arbitrary: s)
  case Nil
  then show ?case by simp
next
  case (Cons r rs)
  obtain n e where r: "r = (n, e)" by (cases r)
  have "dom (models (sequelize_define (name e) (entity_fields e) (options e) s))
        = insert (name e) (dom (models s))"
    by (simp add: sequelize_define_def)
  then show ?case by (simp add: r Cons.IH)
qed

lemma associate_records_no_associations:
  "list_all (\<lambda>r. associations (snd r) = []) rs \<Longrightarrow> associate_records eng rs s h = (Return (), s)"
  by (induction rs arbitrary: s) (auto split: option.splits)

lemma records_class:
  assumes "c \<in> set cs" and "read_meta (prototype c) h = Some e"
  shows "(fname c, e) \<in> set (records h cs)"
  using assms by (force simp: records_def)

lemma records_fst: "map fst (records h cs) = map fname cs"
  by (simp add: records_def comp_def)

lemma records_names:
  assumes "list_all (\<lambda>c. is_class c) cs"
  shows "map (name \<circ> snd) (records h cs) = map fname cs"
proof -
  have "name (case read_meta (prototype c) h of Some e \<Rightarrow> e | None \<Rightarrow> new_entity (fname c)) = fname c"
    if "is_class c" for c
  proof (cases "read_meta (prototype c) h")
    case None
    then show ?thesis by (simp add: new_entity_def)
  next
    case (Some e)
    from read_meta_name[OF Some] that show ?thesis by (simp add: Some is_class_def)
  qed
  then show ?thesis using assms by (simp add: records_def list_all_iff)
qed

text \<open>
  C6, as amended. Take a list of classes that exist in the heap, each with a metadata
  record stored under its own class name and without associations, with pairwise distinct
  names, and an engine that holds no model yet. Then \<^verbatim>\<open>registerEntities\<close> returns a mapping
  whose keys are exactly the names of the entities, as many as the list is long, and under
  the name of each entity the handle defined from its record.
\<close>

theorem registerEntities_no_associations:
  assumes "list_all (\<lambda>c. is_class c \<and> allocated h (prototype c)) cs"
    and "list_all (\<lambda>c. case stored_meta h (prototype c) of
                         None \<Rightarrow> False
                       | Some e \<Rightarrow> associations e = []) cs"
    and "distinct (map fname cs)"
    and "models s = Map.empty"
  shows "\<exists>ms. fst (registerEntities eng s cs h) = Return ms
           \<and> dom ms = set (map fname cs)
           \<and> card (dom ms) = length cs
           \<and> list_all (\<lambda>c. case stored_meta h (prototype c) of
                               None \<Rightarrow> False
                             | Some e \<Rightarrow> name e = fname c \<and> ms (name e) = Some (model_of e)) cs"
proof -
  define rs where "rs = records h cs"
  define s1 where "s1 = define_records rs s"
  have cls: "list_all (\<lambda>c. is_class c) cs" using assms(1) by (simp add: list_all_iff)
  have pre: "list_all (\<lambda>c. allocated h (prototype c) \<and> ctor (prototype c) \<noteq> None) cs"
    using assms(1) by (auto simp: list_all_iff is_class_def)
  have names: "map (name \<circ> snd) rs = map fname cs"
    unfolding rs_def by (rule records_names[OF cls])
  have stored: "\<exists>e. stored_meta h (prototype c) = Some e \<and> associations e = []
                    \<and> (fname c, e) \<in> set rs \<and> name e = fname c"
    if c: "c \<in> set cs" for c
  proof -
    from assms(2) c obtain e where e: "stored_meta h (prototype c) = Some e" "associations e = []"
      by (auto simp: list_all_iff split: option.splits)
    from stored_meta_read_meta[OF e(1)] have rm: "read_meta (prototype c) h = Some e" .
    from read_meta_name[OF rm] cls c have "name e = fname c"
      by (auto simp: list_all_iff is_class_def)
    moreover have "(fname c, e) \<in> set rs" unfolding rs_def by (rule records_class[OF c rm])
    ultimately show ?thesis using e by blast
  qed
  have "list_all (\<lambda>r. associations (snd r) = []) rs"
    unfolding list_all_iff
  proof
    fix r assume "r \<in> set rs"
    then obtain c where c: "c \<in> set cs"
      and r: "r = (fname c, case read_meta (prototype c) h of Some e \<Rightarrow> e
                              | None \<Rightarrow> new_entity (fname c))"
      by (auto simp: rs_def records_def)
    from stored[OF c] obtain e where "stored_meta h (prototype c) = Some e" "associations e = []"
      by blast
    with stored_meta_read_meta[of h "prototype c" e] show "associations (snd r) = []"
      by (simp add: r)
  qed
  then have pass2: "associate_records eng rs s1 h = (Return (), s1)"
    by (rule associate_records_no_associations)
  from registerEntities_records[OF pre, of eng s] obtain h' where
    "registerEntities eng s cs h = (Return (models s1), s1, h')"
    by (auto simp: rs_def[symmetric] s1_def[symmetric] pass2)
  then have res: "fst (registerEntities eng s cs h) = Return (models s1)" by simp
  have "dom (models s1) = set (map (name \<circ> snd) rs)"
    by (simp add: s1_def define_records_dom assms(4))
  then have dm: "dom (models s1) = set (map fname cs)" by (simp only: names)
  have cd: "card (dom (models s1)) = length cs"
    unfolding dm using assms(3) by (simp only: distinct_card length_map)
  have dn: "distinct (map (name \<circ> snd) rs)" using names assms(3) by simp
  have each: "list_all (\<lambda>c. case stored_meta h (prototype c) of
                               None \<Rightarrow> False
                             | Some e \<Rightarrow> name e = fname c \<and> models s1 (name e) = Some (model_of e)) cs"
    unfolding list_all_iff
  proof
    fix c assume "c \<in> set cs"
    from stored[OF this] obtain e where e: "stored_meta h (prototype c) = Some e"
      "(fname c, e) \<in> set rs" "name e = fname c" by blast
    from define_records_models_in[OF dn e(2), of s] e
    show "case stored_meta h (prototype c) of
                               None \<Rightarrow> False
                             | Some e \<Rightarrow> name e = fname c \<and> models s1 (name e) = Some (model_of e)"
      by (simp add: s1_def)
  qed
  from res dm cd each show ?thesis by blast
qed

lemmas eval_defs = getMeta_def store_owner_def the_store_def update_entity_def entity_at_def Let_def
  example_User_def example_Post_def example_heap_def empty_heap_def new_entity_def
  Column_def set_field_def Entity_def default_timestamp_def Object_assign_def is_null_def

lemma example_decorated_stores:
  "stores example_decorated =
     [0 \<mapsto> [\<lparr>name = ''User'', entity_fields = [''email'' \<mapsto> [''type'' \<mapsto> JOpaque ''STRING'']],
                associations = [],
                options = [''createdAt'' \<mapsto> JBool False, ''updatedAt'' \<mapsto> JBool False],
                fields_proto = None, associations_proto = None\<rparr>],
      1 \<mapsto> [\<lparr>name = ''Post'', entity_fields = [''title'' \<mapsto> [''type'' \<mapsto> JOpaque ''STRING'']],
                associations = [], options = Map.empty, fields_proto = None, associations_proto = None\<rparr>]]"
  "next_ref example_decorated = 2"
  by (simp_all add: example_decorated_def eval_defs fun_eq_iff)

lemmas reg_defs = registerEntities_def Object_create_def sequelize_define_def empty_sequelize_def
  Object_keys_def

theorem registerEntities_no_associations_witness:
  "list_all (\<lambda>c. is_class c \<and> allocated example_decorated (prototype c))
     [example_User, example_Post]
   \<and> list_all (\<lambda>c. case stored_meta example_decorated (prototype c) of
                         None \<Rightarrow> False
                       | Some e \<Rightarrow> associations e = []) [example_User, example_Post]
   \<and> distinct (map fname [example_User, example_Post])
   \<and> models empty_sequelize = Map.empty
   \<and> (\<exists>ms. fst (registerEntities strict_engine empty_sequelize [example_User, example_Post]
                   example_decorated) = Return ms
           \<and> dom ms = {''User'', ''Post''} \<and> card (dom ms) = 2)"
proof -
  have 1: "list_all (\<lambda>c. is_class c \<and> allocated example_decorated (prototype c))
     [example_User, example_Post]"
    by (simp add: is_class_def allocated_def example_decorated_stores example_User_def
        example_Post_def)
  have 2: "list_all (\<lambda>c. case stored_meta example_decorated (prototype c) of
                         None \<Rightarrow> False
                       | Some e \<Rightarrow> associations e = []) [example_User, example_Post]"
    by (simp add: stored_meta_def meta_owner_def store_owner_def the_store_def
        example_decorated_stores example_User_def example_Post_def)
  have 3: "distinct (map fname [example_User, example_Post])"
    by (simp add: example_User_def example_Post_def)
  have 4: "models empty_sequelize = Map.empty" by (simp add: empty_sequelize_def)
  from registerEntities_no_associations[OF 1 2 3 4, of strict_engine] obtain ms where
    ms: "fst (registerEntities strict_engine empty_sequelize [example_User, example_Post]
                   example_decorated) = Return ms"
    "dom ms = set (map fname [example_User, example_Post])"
    "card (dom ms) = length [example_User, example_Post]" by blast
  have "set (map fname [example_User, example_Post]) = {''User'', ''Post''}"
    by (simp add: example_User_def example_Post_def)
  with ms have "\<exists>ms. fst (registerEntities strict_engine empty_sequelize [example_User, example_Post]
                   example_decorated) = Return ms
           \<and> dom ms = {''User'', ''Post''} \<and> card (dom ms) = 2"
    by (intro exI[of _ ms]) simp
  with 1 2 3 4 show ?thesis by blast
qed

text \<open>
  C6 as stated fails in three ways. A class decorated with \<^verbatim>\<open>@Entity('users')\<close> has the
  stored name \<^verbatim>\<open>users\<close>, but its handle is returned under \<^verbatim>\<open>User\<close>; a list that names a
  class twice yields one handle for two entries; and an engine that already holds a
  model returns it among the handles.
\<close>

theorem registerEntities_no_associations_counterexample:
  "map name (the_store example_renamed 0) = [''users'']
   \<and> fst (registerEntities strict_engine empty_sequelize [example_User] example_renamed)
       = Return (models (fst (snd (registerEntities strict_engine empty_sequelize [example_User]
                                     example_renamed))))
   \<and> dom (models (fst (snd (registerEntities strict_engine empty_sequelize [example_User]
                                example_renamed)))) = {''User''}
   \<and> fst (registerEntities strict_engine empty_sequelize [example_User, example_User]
            example_decorated)
       = Return (models (fst (snd (registerEntities strict_engine empty_sequelize
                                     [example_User, example_User] example_decorated))))
   \<and> dom (models (fst (snd (registerEntities strict_engine empty_sequelize
                                [example_User, example_User] example_decorated)))) = {''User''}
   \<and> fst (registerEntities strict_engine legacy_sequelize [example_User] example_decorated)
       = Return (models (fst (snd (registerEntities strict_engine legacy_sequelize [example_User]
                                     example_decorated))))
   \<and> dom (models (fst (snd (registerEntities strict_engine legacy_sequelize [example_User]
                                example_decorated)))) = {''Legacy'', ''User''}"
  by (simp add: example_renamed_def example_decorated_def legacy_sequelize_def reg_defs eval_defs)
    auto

subsection \<open>registerEntities: pass 2\<close>

lemma associate_models_other:
  "x \<noteq> ename \<Longrightarrow> models (snd (associate eng ename meta ks model s h)) x = models s x"
  by (induction ks arbitrary: model s) (auto simp: Let_def split: option.splits outcome.splits)

lemma associate_calls_source:
  "\<exists>as. calls (snd (associate eng ename meta ks model s h)) = calls s @ as
        \<and> list_all (\<lambda>cl. association_source cl = Some ename) as"
proof (induction ks arbitrary: model s)
  case Nil
  then show ?case by simp
next
  case (Cons k ks)
  show ?case
  proof (cases "map_of (associations meta) k")
    case None
    then show ?thesis by simp
  next
    case (Some ea)
    define s1 where "s1 = s\<lparr>calls := calls s @
                     [Association_call ename (assoc_method ea) (target ea) k]\<rparr>"
    show ?thesis
    proof (cases "eng model (assoc_method ea) (models s (target ea)) (objs h (association ea))")
      case (Throw err)
      then show ?thesis using Some by (simp add: Let_def)
    next
      case (Return acc)
      define model1 where "model1 = model\<lparr>props := (props model)(k \<mapsto> acc)\<rparr>"
      define s2 where "s2 = s1\<lparr>models := (models s1)(ename \<mapsto> model1)\<rparr>"
      have eq: "associate eng ename meta (k # ks) model s h = associate eng ename meta ks model1 s2 h"
        using Some Return by (simp add: Let_def s1_def s2_def model1_def)
      from Cons.IH[of model1 s2] obtain as where
        "calls (snd (associate eng ename meta ks model1 s2 h)) = calls s2 @ as"
        "list_all (\<lambda>cl. association_source cl = Some ename) as" by blast
      then show ?thesis
        unfolding eq
        by (intro exI[of _ "Association_call ename (assoc_method ea) (target ea) k # as"])
          (simp add: s2_def s1_def)
    qed
  qed
qed

lemma associate_records_active:
  "associate_records eng rs s h =
     associate_records eng (filter (\<lambda>r. associations (snd r) \<noteq> []) rs) s h"
proof (induction rs arbitrary: s)
  case Nil
  then show ?case by simp
next
  case (Cons r rs)
  obtain n e where r: "r = (n, e)" by (cases r)
  show ?case
  proof (cases "associations e = []")
    case True
    then show ?thesis using Cons by (simp add: r split: option.splits)
  next
    case False
    then show ?thesis
      using Cons by (simp add: r split: option.splits prod.splits outcome.splits)
  qed
qed

lemma associate_records_models_other:
  "x \<notin> fst ` set rs \<Longrightarrow> models (snd (associate_records eng rs s h)) x = models s x"
proof (induction rs arbitrary: s)
  case Nil
  then show ?case by simp
next
  case (Cons r rs)
  obtain n e where r: "r = (n, e)" by (cases r)
  from Cons.prems have xn: "x \<noteq> n" and xr: "x \<notin> fst ` set rs" by (auto simp: r)
  show ?case
  proof (cases "models s n")
    case None
    then show ?thesis using Cons.IH[OF xr] by (simp add: r)
  next
    case (Some model)
    obtain r2 s1 where a: "associate eng n e (Object_keys (associations e)) model s h = (r2, s1)"
      by (cases "associate eng n e (Object_keys (associations e)) model s h")
    from associate_models_other[OF xn, of eng e "Object_keys (associations e)" model s h] a
    have s1: "models s1 x = models s x" by simp
    show ?thesis
      using Cons.IH[OF xr, of s1] s1 by (cases r2) (simp_all add: r Some a)
  qed
qed

lemma associate_records_calls_source:
  "\<exists>as. calls (snd (associate_records eng rs s h)) = calls s @ as
        \<and> list_all (\<lambda>cl. case association_source cl of
                              None \<Rightarrow> False
                            | Some src \<Rightarrow> src \<in> fst ` set rs) as"
proof (induction rs arbitrary: s)
  case Nil
  then show ?case by simp
next
  case (Cons r rs)
  obtain n e where r: "r = (n, e)" by (cases r)
  let ?P = "\<lambda>rs cl. case association_source cl of None \<Rightarrow> False
                       | Some src \<Rightarrow> src \<in> fst ` set rs"
  have weaken: "list_all (?P rs) as \<Longrightarrow> list_all (?P (r # rs)) as" for as
    by (auto simp: list_all_iff split: option.splits)
  show ?case
  proof (cases "models s n")
    case None
    from Cons.IH[of s] obtain as where
      "calls (snd (associate_records eng rs s h)) = calls s @ as" "list_all (?P rs) as" by blast
    then show ?thesis using weaken[of as] None by (intro exI[of _ as]) (simp add: r)
  next
    case (Some model)
    obtain r2 s1 where a: "associate eng n e (Object_keys (associations e)) model s h = (r2, s1)"
      by (cases "associate eng n e (Object_keys (associations e)) model s h")
    from associate_calls_source[of eng n e "Object_keys (associations e)" model s h] a
    obtain as1 where as1: "calls s1 = calls s @ as1"
      "list_all (\<lambda>cl. association_source cl = Some n) as1" by auto
    from as1(2) have p1: "list_all (?P (r # rs)) as1" by (auto simp: list_all_iff r)
    show ?thesis
    proof (cases r2)
      case (Throw err)
      then show ?thesis using as1(1) p1 by (intro exI[of _ as1]) (simp add: r Some a)
    next
      case (Return u)
      from Cons.IH[of s1] obtain as2 where
        as2: "calls (snd (associate_records eng rs s1 h)) = calls s1 @ as2" "list_all (?P rs) as2"
        by blast
      from weaken[OF as2(2)] p1 have "list_all (?P (r # rs)) (as1 @ as2)" by simp
      then show ?thesis
        using as1(1) as2(1) by (intro exI[of _ "as1 @ as2"]) (simp add: r Some a Return)
    qed
  qed
qed

lemma associate_calls_mono:
  "set (calls s) \<subseteq> set (calls (snd (associate eng ename meta ks model s h)))"
  using associate_calls_source[of eng ename meta ks model s h] by auto

lemma associate_records_calls_mono:
  "set (calls s) \<subseteq> set (calls (snd (associate_records eng rs s h)))"
  using associate_records_calls_source[of eng rs s h] by auto

lemma associate_Return_props:
  "associate eng ename meta ks model s h = (Return u, s') \<Longrightarrow> models s ename = Some model \<Longrightarrow>
     \<exists>ps. models s' ename = Some (model\<lparr>props := ps\<rparr>) \<and> (\<forall>x. x \<notin> set ks \<longrightarrow> ps x = props model x)"
proof (induction ks arbitrary: model s)
  case Nil
  then show ?case by (intro exI[of _ "props model"]) simp
next
  case (Cons k ks)
  from Cons.prems(1) obtain ea where ea: "map_of (associations meta) k = Some ea"
    by (cases "map_of (associations meta) k") auto
  from Cons.prems(1) ea obtain acc where
    acc: "eng model (assoc_method ea) (models s (target ea)) (objs h (association ea)) = Return acc"
    by (cases "eng model (assoc_method ea) (models s (target ea)) (objs h (association ea))")
      (auto simp: Let_def)
  define model1 where "model1 = model\<lparr>props := (props model)(k \<mapsto> acc)\<rparr>"
  define s2 where "s2 = s\<lparr>calls := calls s @
                     [Association_call ename (assoc_method ea) (target ea) k],
                   models := (models s)(ename \<mapsto> model1)\<rparr>"
  have eq: "associate eng ename meta (k # ks) model s h = associate eng ename meta ks model1 s2 h"
    using ea acc by (simp add: Let_def s2_def model1_def)
  have "models s2 ename = Some model1" by (simp add: s2_def)
  from Cons.IH[OF _ this] Cons.prems(1) eq obtain ps where
    "models s' ename = Some (model1\<lparr>props := ps\<rparr>)" "\<forall>x. x \<notin> set ks \<longrightarrow> ps x = props model1 x"
    by auto
  then show ?case by (intro exI[of _ ps]) (simp add: model1_def)
qed

lemma associate_absent_target:
  "associate eng ename meta ks model s h = (Return u, s') \<Longrightarrow> models s ename = Some model \<Longrightarrow>
   k \<in> set ks \<Longrightarrow> map_of (associations meta) k = Some a \<Longrightarrow> models s (target a) = None \<Longrightarrow>
     Association_call ename (assoc_method a) (target a) k \<in> set (calls s')
     \<and> (\<exists>ps ps' acc.
           eng (model\<lparr>props := ps\<rparr>) (assoc_method a) None (objs h (association a)) = Return acc
           \<and> models s' ename = Some (model\<lparr>props := ps'\<rparr>) \<and> ps' k = Some acc)"
proof (induction ks arbitrary: model s)
  case Nil
  then show ?case by simp
next
  case (Cons k' ks)
  from Cons.prems(2,5) have tn: "ename \<noteq> target a" by auto
  from Cons.prems(1) obtain ea where ea: "map_of (associations meta) k' = Some ea"
    by (cases "map_of (associations meta) k'") auto
  from Cons.prems(1) ea obtain acc where
    acc: "eng model (assoc_method ea) (models s (target ea)) (objs h (association ea)) = Return acc"
    by (cases "eng model (assoc_method ea) (models s (target ea)) (objs h (association ea))")
      (auto simp: Let_def)
  define model1 where "model1 = model\<lparr>props := (props model)(k' \<mapsto> acc)\<rparr>"
  define s2 where "s2 = s\<lparr>calls := calls s @
                     [Association_call ename (assoc_method ea) (target ea) k'],
                   models := (models s)(ename \<mapsto> model1)\<rparr>"
  have eq: "associate eng ename meta (k' # ks) model s h = associate eng ename meta ks model1 s2 h"
    using ea acc by (simp add: Let_def s2_def model1_def)
  with Cons.prems(1) have rest: "associate eng ename meta ks model1 s2 h = (Return u, s')" by simp
  have m2: "models s2 ename = Some model1" by (simp add: s2_def)
  have t2: "models s2 (target a) = None" using Cons.prems(5) tn by (simp add: s2_def)
  show ?case
  proof (cases "k \<in> set ks")
    case True
    from Cons.IH[OF rest m2 True Cons.prems(4) t2] obtain ps ps' acc' where
      c: "Association_call ename (assoc_method a) (target a) k \<in> set (calls s')"
      and e: "eng (model1\<lparr>props := ps\<rparr>) (assoc_method a) None (objs h (association a)) = Return acc'"
      and m: "models s' ename = Some (model1\<lparr>props := ps'\<rparr>)" and p: "ps' k = Some acc'"
      by blast
    have "model1\<lparr>props := ps\<rparr> = model\<lparr>props := ps\<rparr>" "model1\<lparr>props := ps'\<rparr> = model\<lparr>props := ps'\<rparr>"
      by (simp_all add: model1_def)
    with c e m p show ?thesis by metis
  next
    case False
    with Cons.prems(3) have kk: "k' = k" by simp
    with ea Cons.prems(4) have eaa: "ea = a" by simp
    have e: "eng (model\<lparr>props := props model\<rparr>) (assoc_method a) None (objs h (association a))
               = Return acc"
      using acc Cons.prems(5) by (simp add: eaa)
    from associate_Return_props[OF rest m2] obtain ps' where
      m: "models s' ename = Some (model1\<lparr>props := ps'\<rparr>)"
      and fr: "\<forall>x. x \<notin> set ks \<longrightarrow> ps' x = props model1 x" by blast
    from fr False have p: "ps' k = Some acc" by (simp add: model1_def kk)
    have m': "models s' ename = Some (model\<lparr>props := ps'\<rparr>)" using m by (simp add: model1_def)
    have "Association_call ename (assoc_method a) (target a) k \<in> set (calls s2)"
      by (simp add: s2_def kk eaa)
    with associate_calls_mono[of s2 eng ename meta ks model1 h] rest
    have c: "Association_call ename (assoc_method a) (target a) k \<in> set (calls s')" by auto
    from c e m' p show ?thesis by blast
  qed
qed

lemma associate_total:
  assumes "\<forall>model meth tgt ob. \<exists>acc. eng model meth tgt ob = Return acc"
    and "set ks \<subseteq> fst ` set (associations meta)"
  shows "fst (associate eng ename meta ks model s h) = Return ()"
  using assms(2)
proof (induction ks arbitrary: model s)
  case Nil
  then show ?case by simp
next
  case (Cons k ks)
  from Cons.prems have "k \<in> fst ` set (associations meta)" by simp
  then obtain ea where ea: "map_of (associations meta) k = Some ea"
    by (metis domD dom_map_of_conv_image_fst)
  from assms(1) obtain acc where
    acc: "eng model (assoc_method ea) (models s (target ea)) (objs h (association ea)) = Return acc"
    by blast
  from Cons.prems have "set ks \<subseteq> fst ` set (associations meta)" by simp
  from Cons.IH[OF this] show ?case using ea acc by (simp add: Let_def)
qed

lemma associate_Throw_engine:
  assumes "associate eng ename meta ks model s h = (Throw err, s')"
    and "set ks \<subseteq> fst ` set (associations meta)"
  shows "\<exists>model' meth tgt ob. eng model' meth tgt ob = Throw err"
  using assms
proof (induction ks arbitrary: model s)
  case Nil
  then show ?case by simp
next
  case (Cons k ks)
  from Cons.prems(2) have "k \<in> fst ` set (associations meta)" by simp
  then obtain ea where ea: "map_of (associations meta) k = Some ea"
    by (metis domD dom_map_of_conv_image_fst)
  from Cons.prems(2) have sub: "set ks \<subseteq> fst ` set (associations meta)" by simp
  show ?case
  proof (cases "eng model (assoc_method ea) (models s (target ea)) (objs h (association ea))")
    case (Throw err')
    with Cons.prems(1) ea have "err' = err" by (simp add: Let_def)
    with Throw show ?thesis by blast
  next
    case (Return acc)
    with Cons.prems(1) ea Cons.IH[OF _ sub] show ?thesis by (simp add: Let_def)
  qed
qed

lemma associate_records_total:
  assumes "\<forall>model meth tgt ob. \<exists>acc. eng model meth tgt ob = Return acc"
  shows "fst (associate_records eng rs s h) = Return ()"
proof (induction rs arbitrary: s)
  case Nil
  then show ?case by simp
next
  case (Cons r rs)
  obtain n e where r: "r = (n, e)" by (cases r)
  show ?case
  proof (cases "models s n")
    case None
    then show ?thesis using Cons.IH by (simp add: r)
  next
    case (Some model)
    obtain r2 s1 where a: "associate eng n e (Object_keys (associations e)) model s h = (r2, s1)"
      by (cases "associate eng n e (Object_keys (associations e)) model s h")
    from associate_total[OF assms, of "Object_keys (associations e)" e n model s h] a
    have "r2 = Return ()" by (simp add: set_Object_keys)
    then show ?thesis using Cons.IH[of s1] by (simp add: r Some a)
  qed
qed

lemma associate_records_Throw_engine:
  "associate_records eng rs s h = (Throw err, s') \<Longrightarrow>
     \<exists>model' meth tgt ob. eng model' meth tgt ob = Throw err"
proof (induction rs arbitrary: s)
  case Nil
  then show ?case by simp
next
  case (Cons r rs)
  obtain n e where r: "r = (n, e)" by (cases r)
  show ?case
  proof (cases "models s n")
    case None
    then show ?thesis using Cons by (simp add: r)
  next
    case (Some model)
    obtain r2 s1 where a: "associate eng n e (Object_keys (associations e)) model s h = (r2, s1)"
      by (cases "associate eng n e (Object_keys (associations e)) model s h")
    show ?thesis
    proof (cases r2)
      case (Throw err')
      with Cons.prems Some a have "err' = err" by (simp add: r)
      with associate_Throw_engine[OF a[unfolded Throw]] show ?thesis
        by (simp add: set_Object_keys)
    next
      case (Return u)
      with Cons.prems Some a have "associate_records eng rs s1 h = (Throw err, s')" by (simp add: r)
      from Cons.IH[OF this] show ?thesis .
    qed
  qed
qed

lemma associate_records_absent_target:
  "associate_records eng rs s h = (Return u, s') \<Longrightarrow> distinct (map fst rs) \<Longrightarrow>
   (n, e) \<in> set rs \<Longrightarrow> map_of (associations e) k = Some a \<Longrightarrow> models s n = Some model \<Longrightarrow>
   models s (target a) = None \<Longrightarrow>
     Association_call n (assoc_method a) (target a) k \<in> set (calls s')
     \<and> (\<exists>ps ps' acc.
           eng (model\<lparr>props := ps\<rparr>) (assoc_method a) None (objs h (association a)) = Return acc
           \<and> models s' n = Some (model\<lparr>props := ps'\<rparr>) \<and> ps' k = Some acc)"
proof (induction rs arbitrary: s)
  case Nil
  then show ?case by simp
next
  case (Cons r rs)
  obtain n' e' where r: "r = (n', e')" by (cases r)
  from Cons.prems(2) have d: "distinct (map fst rs)" and nin: "n' \<notin> fst ` set rs" by (simp_all add: r)
  show ?case
  proof (cases "models s n'")
    case None
    with Cons.prems(1) have rest: "associate_records eng rs s h = (Return u, s')" by (simp add: r)
    from None Cons.prems(3,5) have "(n, e) \<in> set rs" by (auto simp: r)
    from Cons.IH[OF rest d this Cons.prems(4,5,6)] show ?thesis .
  next
    case (Some model')
    obtain r2 s1 where a: "associate eng n' e' (Object_keys (associations e')) model' s h = (r2, s1)"
      by (cases "associate eng n' e' (Object_keys (associations e')) model' s h")
    with Cons.prems(1) Some obtain v where r2: "r2 = Return v"
      and rest: "associate_records eng rs s1 h = (Return u, s')"
      by (cases r2) (auto simp: r)
    note a' = a[unfolded r2]
    from Some Cons.prems(6) have tn: "n' \<noteq> target a" by auto
    show ?thesis
    proof (cases "n = n'")
      case True
      with Cons.prems(3) nin have ee: "e = e'" by (auto simp: r intro: rev_image_eqI)
      from True Some Cons.prems(5) have mm: "model' = model" by simp
      have kin: "k \<in> set (Object_keys (associations e'))"
        using Cons.prems(4) by (auto simp: set_Object_keys ee dest: map_of_SomeD intro: rev_image_eqI)
      from associate_absent_target[OF a' Some kin _ Cons.prems(6)] Cons.prems(4)
      obtain ps ps' acc where
        c: "Association_call n (assoc_method a) (target a) k \<in> set (calls s1)"
        and e: "eng (model\<lparr>props := ps\<rparr>) (assoc_method a) None (objs h (association a)) = Return acc"
        and m: "models s1 n = Some (model\<lparr>props := ps'\<rparr>)" and p: "ps' k = Some acc"
        by (auto simp: ee True mm)
      from nin True have "n \<notin> fst ` set rs" by simp
      from associate_records_models_other[OF this, of eng s1 h] rest m
      have m': "models s' n = Some (model\<lparr>props := ps'\<rparr>)" by simp
      from associate_records_calls_mono[of s1 eng rs h] rest c
      have c': "Association_call n (assoc_method a) (target a) k \<in> set (calls s')" by auto
      from c' e m' p show ?thesis by blast
    next
      case False
      with Cons.prems(3) have mem: "(n, e) \<in> set rs" by (auto simp: r)
      from associate_models_other[OF False, of eng e' "Object_keys (associations e')" model' s h] a
        Cons.prems(5) have m1: "models s1 n = Some model" by simp
      from associate_models_other[of "target a" n' eng e' "Object_keys (associations e')" model' s h]
        a tn Cons.prems(6) have t1: "models s1 (target a) = None" by simp
      from Cons.IH[OF rest d mem Cons.prems(4) m1 t1] show ?thesis .
    qed
  qed
qed

text \<open>
  C1, as amended. Take a list of classes with pairwise distinct names, and in it a class
  whose record is stored under the name of the class and has, under a property name other
  than \<^verbatim>\<open>__proto__\<close>, an association whose target is neither the name of a class of the list
  nor a model that the engine holds already. \<^verbatim>\<open>registerEntities\<close> does not skip that association: whenever it
  returns, it has called the association method on the model of the class with an absent
  target and the stored options object, the engine has returned an accessor, and that
  accessor is the property of the model under the name of the association. It returns
  whenever the engine returns from every call, and it throws an error of the engine
  whenever the engine rejects an absent target for that method.
\<close>

theorem missing_target_not_skipped:
  assumes "list_all (\<lambda>d. is_class d \<and> allocated h (prototype d)) cs"
    and "distinct (map fname cs)"
    and "c \<in> set cs"
    and "stored_meta h (prototype c) = Some e"
    and "map_of (associations e) k = Some a" and "k \<noteq> ''__proto__''"
    and "models s (target a) = None"
    and "target a \<notin> set (map fname cs)"
  shows "(\<forall>ms. fst (registerEntities eng s cs h) = Return ms \<longrightarrow>
            Association_call (fname c) (assoc_method a) (target a) k
              \<in> set (calls (fst (snd (registerEntities eng s cs h))))
            \<and> (\<exists>ps ps' acc.
                  eng ((model_of e)\<lparr>props := ps\<rparr>) (assoc_method a) None
                      (objs h (association a)) = Return acc
                  \<and> ms (fname c) = Some ((model_of e)\<lparr>props := ps'\<rparr>)
                  \<and> ps' k = Some acc))
       \<and> ((\<forall>model meth tgt ob. \<exists>acc. eng model meth tgt ob = Return acc) \<longrightarrow>
            (\<exists>ms. fst (registerEntities eng s cs h) = Return ms))
       \<and> ((\<forall>model ob. \<exists>err. eng model (assoc_method a) None ob = Throw err) \<longrightarrow>
            (\<exists>err model meth tgt ob. fst (registerEntities eng s cs h) = Throw err
                \<and> eng model meth tgt ob = Throw err))"
proof -
  define rs where "rs = records h cs"
  define s1 where "s1 = define_records rs s"
  have cls: "list_all (\<lambda>c. is_class c) cs" using assms(1) by (simp add: list_all_iff)
  have pre: "list_all (\<lambda>c. allocated h (prototype c) \<and> ctor (prototype c) \<noteq> None) cs"
    using assms(1) by (auto simp: list_all_iff is_class_def)
  have names: "map (name \<circ> snd) rs = map fname cs"
    unfolding rs_def by (rule records_names[OF cls])
  have d: "distinct (map fst rs)" unfolding rs_def records_fst by (rule assms(2))
  have dn: "distinct (map (name \<circ> snd) rs)" unfolding names by (rule assms(2))
  from stored_meta_read_meta[OF assms(4)] have rm: "read_meta (prototype c) h = Some e" .
  from read_meta_name[OF rm] cls assms(3) have ne: "name e = fname c"
    by (auto simp: list_all_iff is_class_def)
  have mem: "(fname c, e) \<in> set rs" unfolding rs_def by (rule records_class[OF assms(3) rm])
  have m1: "models s1 (fname c) = Some (model_of e)"
    using define_records_models_in[OF dn mem, of s] by (simp add: s1_def ne)
  have dm: "dom (models s1) = dom (models s) \<union> set (map fname cs)"
    unfolding s1_def define_records_dom names[symmetric] by simp
  have "target a \<notin> dom (models s1)" unfolding dm using assms(7,8) by (auto simp: domIff)
  then have t1: "models s1 (target a) = None" by (simp add: domIff)
  from registerEntities_records[OF pre, of eng s] obtain h' where
    reg: "registerEntities eng s cs h =
           (case associate_records eng rs s1 h of
              (Throw err, s2) \<Rightarrow> (Throw err, s2, h')
            | (Return u, s2) \<Rightarrow> (Return (models s2), s2, h'))"
    by (auto simp: rs_def s1_def)
  obtain r2 s2 where a: "associate_records eng rs s1 h = (r2, s2)"
    by (cases "associate_records eng rs s1 h")
  have returned: "Association_call (fname c) (assoc_method a) (target a) k \<in> set (calls s2)
            \<and> (\<exists>ps ps' acc.
                  eng ((model_of e)\<lparr>props := ps\<rparr>) (assoc_method a) None
                      (objs h (association a)) = Return acc
                  \<and> models s2 (fname c) = Some ((model_of e)\<lparr>props := ps'\<rparr>)
                  \<and> ps' k = Some acc)" if "r2 = Return u" for u
    by (rule associate_records_absent_target[OF a[unfolded that] d mem assms(5) m1 t1])
  have 1: "\<forall>ms. fst (registerEntities eng s cs h) = Return ms \<longrightarrow>
            Association_call (fname c) (assoc_method a) (target a) k
              \<in> set (calls (fst (snd (registerEntities eng s cs h))))
            \<and> (\<exists>ps ps' acc.
                  eng ((model_of e)\<lparr>props := ps\<rparr>) (assoc_method a) None
                      (objs h (association a)) = Return acc
                  \<and> ms (fname c) = Some ((model_of e)\<lparr>props := ps'\<rparr>)
                  \<and> ps' k = Some acc)"
  proof (intro allI impI)
    fix ms assume ret: "fst (registerEntities eng s cs h) = Return ms"
    from ret reg a obtain u where r2: "r2 = Return u" and ms: "ms = models s2"
      by (cases r2) auto
    have s2: "fst (snd (registerEntities eng s cs h)) = s2" by (simp add: reg a r2)
    from returned[OF r2] show "Association_call (fname c) (assoc_method a) (target a) k
              \<in> set (calls (fst (snd (registerEntities eng s cs h))))
            \<and> (\<exists>ps ps' acc.
                  eng ((model_of e)\<lparr>props := ps\<rparr>) (assoc_method a) None
                      (objs h (association a)) = Return acc
                  \<and> ms (fname c) = Some ((model_of e)\<lparr>props := ps'\<rparr>)
                  \<and> ps' k = Some acc)"
      by (simp add: s2 ms)
  qed
  have 2: "(\<forall>model meth tgt ob. \<exists>acc. eng model meth tgt ob = Return acc) \<longrightarrow>
            (\<exists>ms. fst (registerEntities eng s cs h) = Return ms)"
  proof
    assume "\<forall>model meth tgt ob. \<exists>acc. eng model meth tgt ob = Return acc"
    from associate_records_total[OF this, of rs s1 h] a have "r2 = Return ()" by simp
    then show "\<exists>ms. fst (registerEntities eng s cs h) = Return ms" by (simp add: reg a)
  qed
  have 3: "(\<forall>model ob. \<exists>err. eng model (assoc_method a) None ob = Throw err) \<longrightarrow>
            (\<exists>err model meth tgt ob. fst (registerEntities eng s cs h) = Throw err
                \<and> eng model meth tgt ob = Throw err)"
  proof
    assume rej: "\<forall>model ob. \<exists>err. eng model (assoc_method a) None ob = Throw err"
    show "\<exists>err model meth tgt ob. fst (registerEntities eng s cs h) = Throw err
                \<and> eng model meth tgt ob = Throw err"
    proof (cases r2)
      case (Return u)
      from returned[OF Return] rej show ?thesis by (metis outcome.distinct(1))
    next
      case (Throw err)
      from associate_records_Throw_engine[OF a[unfolded Throw]]
      have "\<exists>model meth tgt ob. eng model meth tgt ob = Throw err" .
      moreover have "fst (registerEntities eng s cs h) = Throw err" by (simp add: reg a Throw)
      ultimately show ?thesis by blast
    qed
  qed
  from 1 2 3 show ?thesis by (intro conjI)
qed

lemmas reg_eval = registerEntities_def Object_create_def sequelize_define_def empty_sequelize_def
  Object_keys_def getMeta_def store_owner_def the_store_def update_entity_def entity_at_def Let_def
  example_User_def example_Post_def example_heap_def empty_heap_def new_entity_def
  HasOne_def options_or_new_def set_association_def set_association_entry_def is_array_index_def

lemmas decorator_eval = getMeta_def store_owner_def the_store_def update_entity_def entity_at_def
  Let_def example_User_def example_Post_def example_heap_def empty_heap_def new_entity_def
  HasOne_def BelongsTo_def options_or_new_def set_association_def set_association_entry_def
  Entity_def
  default_timestamp_def Object_assign_def is_null_def

lemma example_has_one_heap:
  "stores example_has_one =
     [0 \<mapsto> [\<lparr>name = ''User'', entity_fields = Map.empty,
                associations = [(''profile'', \<lparr>target = ''Profile'', assoc_method = HAS_ONE,
                                              association = 2\<rparr>)],
                options = Map.empty, fields_proto = None, associations_proto = None\<rparr>]]"
  "next_ref example_has_one = 3"
  by (simp_all add: example_has_one_def decorator_eval fun_eq_iff)

theorem missing_target_not_skipped_witness:
  "list_all (\<lambda>d. is_class d \<and> allocated example_has_one (prototype d)) [example_User]
   \<and> distinct (map fname [example_User])
   \<and> map_option (\<lambda>e. map_option target (map_of (associations e) ''profile''))
        (stored_meta example_has_one (prototype example_User)) = Some (Some ''Profile'')
   \<and> models empty_sequelize ''Profile'' = None
   \<and> ''Profile'' \<notin> set (map fname [example_User])
   \<and> Association_call ''User'' HAS_ONE ''Profile'' ''profile''
        \<in> set (calls (fst (snd (registerEntities lenient_engine empty_sequelize [example_User]
                                   example_has_one))))
   \<and> (\<exists>ms acc. fst (registerEntities lenient_engine empty_sequelize [example_User]
                        example_has_one) = Return ms
          \<and> map_option (\<lambda>m. props m ''profile'') (ms ''User'') = Some (Some acc))
   \<and> (\<exists>err. fst (registerEntities strict_engine empty_sequelize [example_User] example_has_one)
               = Throw err)"
proof -
  define e where "e = \<lparr>name = ''User'', entity_fields = Map.empty,
                associations = [(''profile'', \<lparr>target = ''Profile'', assoc_method = HAS_ONE,
                                              association = 2\<rparr>)],
                options = Map.empty, fields_proto = None, associations_proto = None\<rparr>"
  define a where "a = \<lparr>target = ''Profile'', assoc_method = HAS_ONE, association = 2\<rparr>"
  have 1: "list_all (\<lambda>d. is_class d \<and> allocated example_has_one (prototype d)) [example_User]"
    by (simp add: is_class_def allocated_def example_has_one_heap example_User_def)
  have 2: "distinct (map fname [example_User])" by simp
  have 3: "example_User \<in> set [example_User]" by simp
  have 4: "stored_meta example_has_one (prototype example_User) = Some e"
    by (simp add: stored_meta_def meta_owner_def store_owner_def the_store_def
        example_has_one_heap example_User_def e_def)
  have 5: "map_of (associations e) ''profile'' = Some a" by (simp add: e_def a_def)
  have 6: "models empty_sequelize (target a) = None" by (simp add: empty_sequelize_def)
  have 7: "target a \<notin> set (map fname [example_User])" by (simp add: a_def example_User_def)
  have 8: "''profile'' \<noteq> ''__proto__''" by simp
  note len = missing_target_not_skipped[OF 1 2 3 4 5 8 6 7, of lenient_engine]
  note str = missing_target_not_skipped[OF 1 2 3 4 5 8 6 7, of strict_engine]
  have tot: "\<forall>model meth tgt ob. \<exists>acc. lenient_engine model meth tgt ob = Return acc"
    by (simp add: lenient_engine_def)
  have rej: "\<forall>model ob. \<exists>err. strict_engine model (assoc_method a) None ob = Throw err"
    by (simp add: strict_engine_def)
  from len tot obtain ms where
    ms: "fst (registerEntities lenient_engine empty_sequelize [example_User] example_has_one)
           = Return ms" by blast
  with len obtain ps' acc where
    c: "Association_call (fname example_User) (assoc_method a) (target a) ''profile''
          \<in> set (calls (fst (snd (registerEntities lenient_engine empty_sequelize [example_User]
                                   example_has_one))))"
    and m: "ms (fname example_User) = Some ((model_of e)\<lparr>props := ps'\<rparr>)"
    and p: "ps' ''profile'' = Some acc"
    by blast
  from m p have "map_option (\<lambda>m. props m ''profile'') (ms ''User'') = Some (Some acc)"
    by (simp add: example_User_def)
  with ms have A: "\<exists>ms acc. fst (registerEntities lenient_engine empty_sequelize [example_User]
                        example_has_one) = Return ms
          \<and> map_option (\<lambda>m. props m ''profile'') (ms ''User'') = Some (Some acc)" by blast
  from c have C: "Association_call ''User'' HAS_ONE ''Profile'' ''profile''
        \<in> set (calls (fst (snd (registerEntities lenient_engine empty_sequelize [example_User]
                                   example_has_one))))"
    by (simp add: a_def example_User_def)
  from str rej have S: "\<exists>err. fst (registerEntities strict_engine empty_sequelize [example_User]
               example_has_one) = Throw err" by blast
  have st4: "map_option (\<lambda>e. map_option target (map_of (associations e) ''profile''))
        (stored_meta example_has_one (prototype example_User)) = Some (Some ''Profile'')"
    by (simp add: 4 e_def)
  have st6: "models empty_sequelize ''Profile'' = None" by (simp add: empty_sequelize_def)
  have st7: "''Profile'' \<notin> set (map fname [example_User])" by (simp add: example_User_def)
  from 1 2 st4 st6 st7 C A S show ?thesis by (intro conjI)
qed

text \<open>
  C1 as stated fails with either engine: \<^verbatim>\<open>User\<close> has a \<^verbatim>\<open>hasOne\<close> association to
  \<^verbatim>\<open>Profile\<close>, which is not registered. With the engine that rejects an absent target
  \<^verbatim>\<open>registerEntities\<close> throws; with the engine that accepts it, the accessor is stored under
  \<^verbatim>\<open>profile\<close>.
\<close>

theorem missing_target_counterexample:
  "fst (registerEntities strict_engine empty_sequelize [example_User] example_has_one)
     = Throw (Engine_error ''called with something that is not a model'')
   \<and> fst (registerEntities lenient_engine empty_sequelize [example_User] example_has_one)
     = Return (models (fst (snd (registerEntities lenient_engine empty_sequelize [example_User]
                                   example_has_one))))
   \<and> map_option (\<lambda>m. props m ''profile'')
       (models (fst (snd (registerEntities lenient_engine empty_sequelize [example_User]
                            example_has_one))) ''User'')
     = Some (Some (Accessor ''hasOne''))"
  by (simp add: example_has_one_def reg_eval strict_engine_def lenient_engine_def)

subsection \<open>registerEntities and an entity with an explicit name\<close>

lemma Entity_rename_hides:
  assumes "is_class c" and "nm \<noteq> fname c"
    and "distinct (map name (the_store h0 (meta_owner h0 (prototype c))))"
  shows "stored_meta (snd (Entity (Str nm) opts c h0)) (prototype c) = None"
    and "next_ref (snd (Entity (Str nm) opts c h0)) = next_ref h0"
proof -
  let ?t = "prototype c"
  from assms(1) have ct: "ctor ?t = Some (fname c)" by (simp add: is_class_def)
  obtain m h1 where g: "getMeta ?t h0 = (Return m, h1)" and v: "valid_ref h1 m"
    and nm1: "name (entity_at h1 m) = fname c" and g1: "getMeta ?t h1 = (Return m, h1)"
    and nx: "next_ref h1 = next_ref h0" and fm: "fst m = meta_owner h0 ?t"
    by (rule getMeta_result[OF ct])
  define f where "f = (\<lambda>e::entity. e\<lparr>name := nm,
      options := default_timestamp ''updatedAt'' (default_timestamp ''createdAt''
                       (Object_assign (case opts of None \<Rightarrow> Map.empty | Some ob \<Rightarrow> ob)
                          (options (entity_at h1 m))))\<rparr>)"
  define h where "h = update_entity m f h1"
  have E: "Entity (Str nm) opts c h0 = (Return (), h)"
    by (simp add: Entity_eq[OF g] h_def f_def)
  from settledD[OF ct g1] obtain i where
    i: "first_index (\<lambda>e. name e = fname c) (the_store h1 (meta_owner h1 ?t)) = Some i"
    and m: "m = (meta_owner h1 ?t, i)" by blast
  have own1: "meta_owner h1 ?t = meta_owner h0 ?t" using m fm by simp
  have own: "meta_owner h ?t = meta_owner h0 ?t"
    by (simp add: h_def meta_owner_def store_owner_update_entity[OF v]) (simp add: own1[unfolded meta_owner_def])
  define es1 where "es1 = the_store h1 (meta_owner h0 ?t)"
  have es1: "es1 = the_store h0 (meta_owner h0 ?t)
           \<or> (es1 = the_store h0 (meta_owner h0 ?t) @ [new_entity (fname c)]
              \<and> \<not> list_ex (\<lambda>e. name e = fname c) (the_store h0 (meta_owner h0 ?t)))"
    using getMeta_stores[OF ct, of h0] g
    by (auto simp: es1_def the_store_def split: if_splits)
  have d1: "distinct (map name es1)"
  proof -
    from es1 show ?thesis
    proof
      assume "es1 = the_store h0 (meta_owner h0 ?t)"
      with assms(3) show ?thesis by simp
    next
      assume a: "es1 = the_store h0 (meta_owner h0 ?t) @ [new_entity (fname c)]
              \<and> \<not> list_ex (\<lambda>e. name e = fname c) (the_store h0 (meta_owner h0 ?t))"
      then have "fname c \<notin> name ` set (the_store h0 (meta_owner h0 ?t))"
        by (auto simp: list_ex_iff)
      with a assms(3) show ?thesis by (simp add: new_entity_def)
    qed
  qed
  from first_index_SomeD[OF i] have il: "i < length es1" and ni: "name (es1 ! i) = fname c"
    by (simp_all add: es1_def own1)
  have st: "the_store h (meta_owner h0 ?t) = es1[i := f (es1 ! i)]"
    by (simp add: h_def the_store_update_entity m own1 entity_at_def es1_def)
  have "fname c \<notin> set (map name (es1[i := f (es1 ! i)]))"
  proof
    assume "fname c \<in> set (map name (es1[i := f (es1 ! i)]))"
    then obtain j where j: "j < length es1" "name ((es1[i := f (es1 ! i)]) ! j) = fname c"
      by (auto simp: in_set_conv_nth)
    show False
    proof (cases "j = i")
      case True
      with j il assms(2) show False by (simp add: f_def)
    next
      case False
      with j have nj: "name (es1 ! j) = fname c" by simp
      from d1 have "\<forall>a<length es1. \<forall>b<length es1. a \<noteq> b \<longrightarrow> name (es1 ! a) \<noteq> name (es1 ! b)"
        by (auto simp: distinct_conv_nth)
      with j(1) il False nj ni show False by metis
    qed
  qed
  then have "\<forall>e\<in>set (es1[i := f (es1 ! i)]). name e \<noteq> fname c"
    by (metis image_eqI list.set_map)
  then have "List.find (\<lambda>e. name e = fname c) (es1[i := f (es1 ! i)]) = None"
    by (simp add: find_None_iff)
  then show "stored_meta (snd (Entity (Str nm) opts c h0)) (prototype c) = None"
    by (simp add: E stored_meta_def ct own st)
  show "next_ref (snd (Entity (Str nm) opts c h0)) = next_ref h0"
    by (simp add: E h_def nx)
qed

lemma define_records_calls:
  "calls (define_records rs s) = calls s @ map (\<lambda>r. Define_call (name (snd r))) rs"
  by (induction rs arbitrary: s) (auto simp: sequelize_define_def)

text \<open>
  C8. The code departs from the claim, by a defect of \<^verbatim>\<open>getMeta\<close>, which looks a record up
  under the name of the constructor and so misses the record that \<^verbatim>\<open>Entity\<close> has renamed.
  Let \<^verbatim>\<open>Entity\<close> be the last decorator applied to a class and give it a name other than its
  own, in a store whose records have distinct names, and register the class in a list of
  classes with distinct names. Then no record is stored under the name of the class any
  more; \<^verbatim>\<open>getMeta\<close> makes a new, empty record, from which pass 1 defines a model under the
  name of the class, not under the name given; pass 2 finds that model, where the claim has
  it find none, and makes no association call for it, since the new record has no
  associations; and when \<^verbatim>\<open>registerEntities\<close> returns, the handle of the class is still the
  one defined from the empty record.
\<close>

theorem renamed_entity_registration:
  assumes "is_class c" and "nm \<noteq> fname c"
    and "distinct (map name (the_store h0 (meta_owner h0 (prototype c))))"
    and "h = snd (Entity (Str nm) opts c h0)"
    and "c \<in> set cs"
    and "list_all (\<lambda>d. is_class d \<and> allocated h (prototype d)) cs"
    and "distinct (map fname cs)"
  shows "stored_meta h (prototype c) = None
       \<and> models (fst (snd (define_entities cs s h))) (fname c)
           = Some (model_of (new_entity (fname c)))
       \<and> list_all (\<lambda>cl. association_source cl \<noteq> Some (fname c))
            (drop (length (calls s)) (calls (fst (snd (registerEntities eng s cs h)))))
       \<and> (\<forall>ms. fst (registerEntities eng s cs h) = Return ms \<longrightarrow>
              ms (fname c) = Some (model_of (new_entity (fname c))))"
proof -
  let ?n = "fname c"
  have sm: "stored_meta h (prototype c) = None"
    unfolding assms(4) by (rule Entity_rename_hides(1)[OF assms(1,2,3)])
  from assms(1) have ct: "ctor (prototype c) = Some ?n" by (simp add: is_class_def)
  have rm: "read_meta (prototype c) h = Some (new_entity ?n)"
    by (rule stored_meta_None_read_meta[OF ct sm])
  define rs where "rs = records h cs"
  define s1 where "s1 = define_records rs s"
  have cls: "list_all (\<lambda>c. is_class c) cs" using assms(6) by (simp add: list_all_iff)
  have pre: "list_all (\<lambda>c. allocated h (prototype c) \<and> ctor (prototype c) \<noteq> None) cs"
    using assms(6) by (auto simp: list_all_iff is_class_def)
  have names: "map (name \<circ> snd) rs = map fname cs"
    unfolding rs_def by (rule records_names[OF cls])
  have fsts: "map fst rs = map fname cs" unfolding rs_def by (rule records_fst)
  have mem: "(?n, new_entity ?n) \<in> set rs" unfolding rs_def by (rule records_class[OF assms(5) rm])
  have dn: "distinct (map (name \<circ> snd) rs)" using names assms(7) by simp
  have m1: "models s1 ?n = Some (model_of (new_entity ?n))"
    using define_records_models_in[OF dn mem, of s] by (simp add: s1_def new_entity_def)
  from define_entities_records[OF pre, of s] obtain h1 where
    d: "define_entities cs s h = (Return (), s1, h1)" by (auto simp: rs_def s1_def)
  define act where "act = filter (\<lambda>r. associations (snd r) \<noteq> []) rs"
  have notact: "?n \<notin> fst ` set act"
  proof
    assume "?n \<in> fst ` set act"
    then obtain e' where e': "(?n, e') \<in> set rs" "associations e' \<noteq> []"
      by (auto simp: act_def)
    from assms(7) fsts have "distinct (map fst rs)" by simp
    from this e'(1) mem have "e' = new_entity ?n" by (rule eq_key_imp_eq_value)
    with e'(2) show False by (simp add: new_entity_def)
  qed
  obtain r2 s2 where a: "associate_records eng rs s1 h = (r2, s2)"
    by (cases "associate_records eng rs s1 h")
  then have a': "associate_records eng act s1 h = (r2, s2)"
    using associate_records_active[of eng rs s1 h] by (simp add: act_def)
  from registerEntities_records[OF pre, of eng s] obtain h' where
    "registerEntities eng s cs h =
           (case associate_records eng rs s1 h of
              (Throw err, s2) \<Rightarrow> (Throw err, s2, h')
            | (Return u, s2) \<Rightarrow> (Return (models s2), s2, h'))"
    by (auto simp: rs_def s1_def)
  then have reg: "registerEntities eng s cs h =
           (case r2 of Throw err \<Rightarrow> (Throw err, s2, h') | Return u \<Rightarrow> (Return (models s2), s2, h'))"
    by (cases r2) (simp_all add: a)
  have fin: "fst (snd (registerEntities eng s cs h)) = s2" by (cases r2) (simp_all add: reg)
  from associate_records_calls_source[of eng act s1 h] a' obtain as where
    as: "calls s2 = calls s1 @ as"
    "list_all (\<lambda>cl. case association_source cl of None \<Rightarrow> False
                     | Some src \<Rightarrow> src \<in> fst ` set act) as" by auto
  have c1: "calls s1 = calls s @ map (\<lambda>r. Define_call (name (snd r))) rs"
    by (simp add: s1_def define_records_calls)
  have "list_all (\<lambda>cl. association_source cl \<noteq> Some ?n) as"
    using as(2) notact by (auto simp: list_all_iff split: option.splits)
  moreover have "list_all (\<lambda>cl. association_source cl \<noteq> Some ?n)
                   (map (\<lambda>r. Define_call (name (snd r))) rs)"
    by (simp add: list_all_iff)
  ultimately have calls: "list_all (\<lambda>cl. association_source cl \<noteq> Some ?n)
            (drop (length (calls s)) (calls (fst (snd (registerEntities eng s cs h)))))"
    by (simp add: fin as(1) c1)
  have m2: "models s2 ?n = models s1 ?n"
    using associate_records_models_other[OF notact, of eng s1 h] a' by simp
  have ret: "\<forall>ms. fst (registerEntities eng s cs h) = Return ms \<longrightarrow>
              ms ?n = Some (model_of (new_entity ?n))"
    using m1 m2 by (cases r2) (auto simp: reg)
  from sm m1 calls ret show ?thesis by (simp add: d)
qed

lemma example_belongs_to_heap:
  "stores example_belongs_to =
     [0 \<mapsto> [\<lparr>name = ''User'', entity_fields = Map.empty,
                associations = [(''post'', \<lparr>target = ''Post'', assoc_method = BELONGS_TO,
                                           association = 2\<rparr>)],
                options = Map.empty, fields_proto = None, associations_proto = None\<rparr>]]"
  "next_ref example_belongs_to = 3"
  by (simp_all add: example_belongs_to_def decorator_eval fun_eq_iff)

lemma example_renamed_belongs_to_heap:
  "stores example_renamed_belongs_to =
     [0 \<mapsto> [\<lparr>name = ''users'', entity_fields = Map.empty,
                associations = [(''post'', \<lparr>target = ''Post'', assoc_method = BELONGS_TO,
                                           association = 2\<rparr>)],
                options = [''createdAt'' \<mapsto> JBool False, ''updatedAt'' \<mapsto> JBool False],
                fields_proto = None, associations_proto = None\<rparr>]]"
  "next_ref example_renamed_belongs_to = 3"
  by (simp_all add: example_renamed_belongs_to_def example_belongs_to_def decorator_eval fun_eq_iff)

theorem renamed_entity_registration_witness:
  "is_class example_User \<and> ''users'' \<noteq> fname example_User
   \<and> list_all (\<lambda>d. is_class d \<and> allocated example_renamed_belongs_to (prototype d))
        [example_User, example_Post]
   \<and> map (\<lambda>e. (name e, map fst (associations e))) (the_store example_renamed_belongs_to 0)
       = [(''users'', [''post''])]
   \<and> stored_meta example_renamed_belongs_to (prototype example_User) = None
   \<and> models (fst (snd (define_entities [example_User, example_Post] empty_sequelize
                          example_renamed_belongs_to))) (fname example_User)
       = Some (model_of (new_entity (fname example_User)))
   \<and> list_all (\<lambda>cl. association_source cl \<noteq> Some (fname example_User))
        (drop (length (calls empty_sequelize))
           (calls (fst (snd (registerEntities strict_engine empty_sequelize
                               [example_User, example_Post] example_renamed_belongs_to)))))"
proof -
  have 1: "is_class example_User" by (simp add: is_class_def example_User_def)
  have 2: "''users'' \<noteq> fname example_User" by (simp add: example_User_def)
  have 3: "distinct (map name (the_store example_belongs_to
                                 (meta_owner example_belongs_to (prototype example_User))))"
    by (simp add: meta_owner_def store_owner_def the_store_def example_belongs_to_heap
        example_User_def)
  have 4: "example_renamed_belongs_to = snd (Entity (Str ''users'') None example_User example_belongs_to)"
    by (simp add: example_renamed_belongs_to_def)
  have 5: "example_User \<in> set [example_User, example_Post]" by simp
  have 6: "list_all (\<lambda>d. is_class d \<and> allocated example_renamed_belongs_to (prototype d))
        [example_User, example_Post]"
    by (simp add: is_class_def allocated_def example_renamed_belongs_to_heap example_User_def
        example_Post_def)
  have 7: "distinct (map fname [example_User, example_Post])"
    by (simp add: example_User_def example_Post_def)
  have 8: "map (\<lambda>e. (name e, map fst (associations e))) (the_store example_renamed_belongs_to 0)
       = [(''users'', [''post''])]"
    by (simp add: the_store_def example_renamed_belongs_to_heap)
  from renamed_entity_registration[OF 1 2 3 4 5 6 7, of empty_sequelize strict_engine] 1 2 6 8
  show ?thesis by simp
qed

text \<open>
  C8 on a failing input: \<^verbatim>\<open>User\<close> declares \<^verbatim>\<open>@BelongsTo(() => Post) post\<close> and is decorated
  with \<^verbatim>\<open>@Entity('users')\<close>; \<^verbatim>\<open>User\<close> and \<^verbatim>\<open>Post\<close> are registered. The record of \<^verbatim>\<open>User\<close> is named
  \<^verbatim>\<open>users\<close> and holds the association. After pass 1 the engine has a model named \<^verbatim>\<open>User\<close>,
  without attributes, and none named \<^verbatim>\<open>users\<close>; registration returns, and the only calls it
  has made to the engine are the two definitions.
\<close>

theorem renamed_entity_registration_counterexample:
  "map (\<lambda>e. (name e, map fst (associations e))) (the_store example_renamed_belongs_to 0)
       = [(''users'', [''post''])]
   \<and> models (fst (snd (define_entities [example_User, example_Post] empty_sequelize
                          example_renamed_belongs_to))) ''User''
       = Some (model_of (new_entity ''User''))
   \<and> models (fst (snd (define_entities [example_User, example_Post] empty_sequelize
                          example_renamed_belongs_to))) ''users''
       = None
   \<and> fst (registerEntities strict_engine empty_sequelize [example_User, example_Post]
            example_renamed_belongs_to)
       = Return (models (fst (snd (registerEntities strict_engine empty_sequelize
                                     [example_User, example_Post] example_renamed_belongs_to))))
   \<and> calls (fst (snd (registerEntities strict_engine empty_sequelize
                         [example_User, example_Post] example_renamed_belongs_to)))
       = [Define_call ''User'', Define_call ''Post'']"
  by (simp add: example_renamed_belongs_to_def example_belongs_to_def decorator_eval
      registerEntities_def Object_create_def sequelize_define_def empty_sequelize_def
      model_of_def Object_keys_def)

subsection \<open>What a decorator leaves unchanged\<close>
























end
